theory Spec2Isabelle
  imports Complex_Main "HOL-Library.Sublist" "HOL-Library.AList" "HOL-Library.Multiset"
    "HOL-Library.Char_ord" "HOL-Library.List_Lexorder"
begin

section \<open>Python values used by the crawler\<close>

text \<open>
  Python strings are modelled as \<^typ>\<open>string\<close>, one \<^typ>\<open>char\<close> per code point
  (code points below 256).  Exceptions are values of \<open>py_error\<close>; a function that can
  raise returns \<open>py_error + 'a\<close> with \<open>Inl\<close> for the exception.
\<close>

datatype py_error = ValueError | TypeError | AttributeError | KeyError | IndexError
  | OSError | EncoderError | DriverError | ReError

text \<open>\<open>str.startswith\<close> with a tuple of prefixes.\<close>

definition startswith :: "string \<Rightarrow> string list \<Rightarrow> bool" where
  "startswith s ps = list_ex (\<lambda>p. prefix p s) ps"

text \<open>\<open>sep.join(xs)\<close>.\<close>

fun py_join :: "string \<Rightarrow> string list \<Rightarrow> string" where
  "py_join sep [] = []"
| "py_join sep [x] = x"
| "py_join sep (x # y # ys) = x @ sep @ py_join sep (y # ys)"

text \<open>
  \<open>str.isspace\<close> on one character: the code points below 256 that Python counts as
  white space are 9 to 13, 28 to 32, 133 and 160.
\<close>

definition py_isspace :: "char \<Rightarrow> bool" where
  "py_isspace c = (let n = (of_char c :: nat) in
     (9 \<le> n \<and> n \<le> 13) \<or> (28 \<le> n \<and> n \<le> 32) \<or> n = 133 \<or> n = 160)"

definition py_lstrip :: "string \<Rightarrow> string" where
  "py_lstrip s = dropWhile py_isspace s"

definition py_rstrip :: "string \<Rightarrow> string" where
  "py_rstrip s = rev (dropWhile py_isspace (rev s))"

definition py_strip :: "string \<Rightarrow> string" where
  "py_strip s = py_rstrip (py_lstrip s)"

section \<open>The document model and the markdown renderer (scrape.py)\<close>

text \<open>
  The dictionaries built by \<open>Scrape._extract_json\<close>: a link \<open>{"text", "url"}\<close>, a
  subsection \<open>{"headline", "description", "links", "content"}\<close>, a section with the
  additional key \<open>"subsections"\<close>, a review, and the document itself.  A metadata value
  is a string, a list of strings (the multi-valued Open Graph keys) or an integer (the
  status code).  A dictionary whose insertion order is observable is an association list.
\<close>

record link =
  link_text :: string
  link_url :: string

record block =
  headline :: string
  description :: string
  links :: "link list"
  content :: string

record doc_section = block +
  subsections :: "block list"

record review =
  author :: string
  date :: string
  review_text :: string
  platform :: string
  rating :: string
  read_more :: bool
  verified :: bool

datatype meta_value = MStr string | MList "string list" | MInt int

type_synonym meta_dict = "(string \<times> meta_value) list"

record document =
  title :: string
  metadata :: meta_dict
  sections :: "doc_section list"
  reviews :: "review list"

text \<open>Decimal rendering of an integer, as \<open>str(n)\<close> gives it inside an f-string.\<close>

definition digit_char :: "nat \<Rightarrow> char" where
  "digit_char d = char_of (48 + d)"

fun str_nat :: "nat \<Rightarrow> string" where
  "str_nat n = (if n < 10 then [digit_char n] else str_nat (n div 10) @ [digit_char (n mod 10)])"

definition str_int :: "int \<Rightarrow> string" where
  "str_int i = (if i < 0 then CHR ''-'' # str_nat (nat (- i)) else str_nat (nat i))"

text \<open>Truth value of a metadata value in \<open>if value:\<close>.\<close>

fun truthy :: "meta_value \<Rightarrow> bool" where
  "truthy (MStr s) = (s \<noteq> [])"
| "truthy (MList xs) = (xs \<noteq> [])"
| "truthy (MInt i) = (i \<noteq> 0)"

text \<open>The lines appended for one link (lines 330-335 and 351-356).\<close>

definition link_lines :: "link \<Rightarrow> string list" where
  "link_lines l =
     [if startswith (link_url l) [''http://'', ''https://'']
      then ''[Redirect to '' @ link_url l @ '']('' @ link_url l @ '')''
      else ''['' @ link_text l @ '']('' @ link_url l @ '')'',
      '''']"

text \<open>Description, content and links: the part shared by sections and subsections.\<close>

definition body_lines :: "'a block_scheme \<Rightarrow> string list" where
  "body_lines b =
     (if description b \<noteq> [] then [description b, ''''] else []) @
     (if content b \<noteq> [] \<and> content b \<noteq> description b then [content b, ''''] else []) @
     concat (map link_lines (links b))"

definition subsection_lines :: "block \<Rightarrow> string list" where
  "subsection_lines s =
     (if headline s \<noteq> [] then [''## '' @ headline s, ''''] else []) @ body_lines s"

definition section_lines :: "doc_section \<Rightarrow> string list" where
  "section_lines s =
     (if headline s \<noteq> []
      then [if startswith (headline s) [''#''] then headline s
            else ''# **'' @ headline s @ ''**'', '''']
      else []) @
     body_lines s @
     concat (map subsection_lines (subsections s))"

definition review_parts :: "review \<Rightarrow> string list" where
  "review_parts r =
     (if author r \<noteq> [] then [author r] else []) @
     (if date r \<noteq> [] then [date r] else []) @
     (if platform r \<noteq> [] then [''on '' @ platform r] else []) @
     (if rating r \<noteq> [] then [rating r] else []) @
     (if review_text r \<noteq> []
      then review_text r # (if read_more r then [''Read more''] else [])
      else [])"

definition review_lines :: "review \<Rightarrow> string list" where
  "review_lines r = (if review_parts r \<noteq> [] then review_parts r @ [''''] else [])"

definition important_fields :: "string list" where
  "important_fields = [''title'', ''description'', ''og:title'', ''og:description'',
     ''og:image'', ''twitter:image'', ''language'', ''viewport'']"

definition field_lines :: "meta_dict \<Rightarrow> string \<Rightarrow> string list" where
  "field_lines m field =
     (case map_of m field of
        None \<Rightarrow> []
      | Some v \<Rightarrow>
          if truthy v then
            (case v of
               MList vs \<Rightarrow> map (\<lambda>x. field @ '': '' @ x) vs
             | MStr s \<Rightarrow> [field @ '': '' @ s]
             | MInt i \<Rightarrow> [field @ '': '' @ str_int i]) @ ['''']
          else [])"

definition metadata_lines :: "meta_dict \<Rightarrow> string list" where
  "metadata_lines m =
     (if m \<noteq> [] then [''---'', ''''] @ concat (map (field_lines m) important_fields) else [])"

definition md_lines :: "document \<Rightarrow> string list" where
  "md_lines d =
     (if title d \<noteq> [] then [title d, ''''] else []) @
     concat (map section_lines (sections d)) @
     (if reviews d \<noteq> []
      then [''# **Why We're #1 on Amazon**'', ''''] @ concat (map review_lines (reviews d))
      else []) @
     metadata_lines (metadata d)"

definition json_to_markdown :: "document \<Rightarrow> string" where
  "json_to_markdown d = py_strip (py_join [CHR 0x0A] (md_lines d))"

text \<open>
  The document of the rendering scenario: no title, no metadata, no reviews, and the
  single section \<open>{headline: "Hi", description: "", content: "", links: [],
  subsections: []}\<close>.
\<close>

definition hi_section :: doc_section where
  "hi_section = \<lparr>headline = ''Hi'', description = '''', links = [], content = '''',
     subsections = []\<rparr>"

definition hi_document :: document where
  "hi_document = \<lparr>title = '''', metadata = [], sections = [hi_section], reviews = []\<rparr>"

section \<open>The screenshot compositor (screenshot_manager.py)\<close>

text \<open>
  A Pillow image is its size and the list of pastes made into it, each a raster and the
  corner it was pasted at.  \<open>Image.new\<close> refuses a negative size; \<open>paste\<close> never
  changes the size of the image pasted into.
\<close>

datatype image = Image (img_width: int) (img_height: int) (pasted: "(image \<times> int \<times> int) list")

definition Image_new :: "int \<Rightarrow> int \<Rightarrow> py_error + image" where
  "Image_new w h = (if w < 0 \<or> h < 0 then Inl ValueError else Inr (Image w h []))"

definition paste :: "image \<Rightarrow> image \<Rightarrow> int \<times> int \<Rightarrow> image" where
  "paste full im box = Image (img_width full) (img_height full) (pasted full @ [(im, box)])"

text \<open>\<open>range(start, stop, step)\<close> as a list; a zero step raises \<open>ValueError\<close>.\<close>

definition py_range :: "int \<Rightarrow> int \<Rightarrow> int \<Rightarrow> py_error + int list" where
  "py_range start stop step =
     (if step = 0 then Inl ValueError
      else if 0 < step
        then Inr (map (\<lambda>k. start + int k * step) [0..<nat ((stop - start + step - 1) div step)])
        else Inr (map (\<lambda>k. start + int k * step) [0..<nat ((start - stop - step - 1) div (- step))]))"

text \<open>
  Python \<open>bytes\<close> are modelled as \<^typ>\<open>string\<close>, one \<^typ>\<open>char\<close> per byte.  A PNG stream
  starts with the eight bytes of the signature, followed by the header chunk: its
  length \<open>00 00 00 0D\<close> and its name \<open>IHDR\<close>.
\<close>

definition png_signature :: string where
  "png_signature = [CHR 0x89, CHR 0x50, CHR 0x4E, CHR 0x47, CHR 0x0D, CHR 0x0A, CHR 0x1A, CHR 0x0A]"

definition png_header_start :: string where
  "png_header_start = png_signature @ [CHR 0x00, CHR 0x00, CHR 0x00, CHR 0x0D] @ ''IHDR''"

definition is_png :: "string \<Rightarrow> bool" where
  "is_png bs = prefix png_header_start bs"

text \<open>
  The file system, as far as Pillow and \<open>pathlib\<close> use it here: the image stored under
  a file name, the outcome of opening a file for writing and of writing an image to it,
  and \<open>str(self.base_dir / "full_page" / filename)\<close>.
\<close>

record file_system =
  image_at :: "string \<Rightarrow> py_error + image"
  open_wb :: "string \<Rightarrow> py_error option"
  write_png :: "string \<Rightarrow> image \<Rightarrow> py_error option"
  full_page_path :: "string \<Rightarrow> string"

text \<open>
  \<open>Image.open(fp)\<close> on a \<open>bytes\<close> argument, which is what \<open>capture_full_page\<close> passes.
  Pillow takes a \<open>str\<close> or \<open>bytes\<close> argument for the name of a file and opens that file
  with the built-in \<open>open\<close>, which raises \<open>ValueError\<close> (embedded null byte) on a name
  with a zero byte.  Empty \<open>bytes\<close> are falsy and taken for a file object, and the call of
  their \<open>read\<close> raises \<open>AttributeError\<close>.
\<close>

definition Image_open :: "file_system \<Rightarrow> string \<Rightarrow> py_error + image" where
  "Image_open fs fp =
     (if fp = [] then Inl AttributeError
      else if CHR 0x00 \<in> set fp then Inl ValueError
      else image_at fs fp)"

text \<open>
  \<open>Image.save(path)\<close>: the file is opened for writing, then the encoder runs, which
  refuses an image without pixels (\<open>EncoderError\<close> stands for the exception it raises).
\<close>

definition Image_save :: "file_system \<Rightarrow> image \<Rightarrow> string \<Rightarrow> py_error option" where
  "Image_save fs im p =
     (case open_wb fs p of
        Some e \<Rightarrow> Some e
      | None \<Rightarrow>
          if img_width im = 0 \<or> img_height im = 0 then Some EncoderError
          else write_png fs p im)"

text \<open>
  \<open>_generate_filename(prefix, suffix)\<close>, with the time stamp
  \<open>datetime.now().strftime("%Y%m%d_%H%M%S")\<close> as a parameter.  \<open>if suffix:\<close> is false for
  \<open>None\<close> and for the empty string.
\<close>

definition generate_filename :: "string \<Rightarrow> string \<Rightarrow> string option \<Rightarrow> string" where
  "generate_filename timestamp pre suffix0 =
     (case suffix0 of
        None \<Rightarrow> pre @ ''_'' @ timestamp @ ''.png''
      | Some sfx \<Rightarrow>
          if sfx = [] then pre @ ''_'' @ timestamp @ ''.png''
          else pre @ ''_'' @ timestamp @ ''_'' @ sfx @ ''.png'')"

text \<open>
  The Selenium driver, as far as \<open>capture_full_page\<close> uses it: the three measurements
  it reads, and the outcome of the scroll script and of \<open>get_screenshot_as_png\<close> (the
  bytes of a PNG stream) in the \<open>k\<close>-th iteration at offset \<open>y\<close>.  The calls made to the
  driver are recorded in order.
\<close>

record driver =
  scrollHeight :: int
  scrollWidth :: int
  innerHeight :: int
  scroll_to :: "nat \<Rightarrow> int \<Rightarrow> py_error option"
  get_screenshot_as_png :: "nat \<Rightarrow> int \<Rightarrow> py_error + string"

datatype driver_call = ScrollTo int | Screenshot

text \<open>The \<open>for y in range(...)\<close> loop (lines 65-75): scroll, capture, decode, paste.\<close>

fun capture_loop :: "file_system \<Rightarrow> driver \<Rightarrow> int list \<Rightarrow> nat \<Rightarrow> image
    \<Rightarrow> driver_call list \<times> (py_error + image)" where
  "capture_loop fs d [] k full = ([], Inr full)"
| "capture_loop fs d (y # ys) k full =
     (case scroll_to d k y of
        Some e \<Rightarrow> ([ScrollTo y], Inl e)
      | None \<Rightarrow>
          (case get_screenshot_as_png d k y of
             Inl e \<Rightarrow> ([ScrollTo y, Screenshot], Inl e)
           | Inr screenshot \<Rightarrow>
               (case Image_open fs screenshot of
                  Inl e \<Rightarrow> ([ScrollTo y, Screenshot], Inl e)
                | Inr viewport \<Rightarrow>
                    (case capture_loop fs d ys (Suc k) (paste full viewport (0, y)) of
                       (calls, r) \<Rightarrow> (ScrollTo y # Screenshot # calls, r)))))"

text \<open>
  \<open>capture_full_page(driver, name)\<close>: the calls made to the driver, and the path
  returned together with the image saved under it, or the exception raised.
\<close>

definition capture_full_page :: "file_system \<Rightarrow> driver \<Rightarrow> string \<Rightarrow> string option
    \<Rightarrow> driver_call list \<times> (py_error + string \<times> image)" where
  "capture_full_page fs d timestamp name =
     (case Image_new (scrollWidth d) (scrollHeight d) of
        Inl e \<Rightarrow> ([], Inl e)
      | Inr full_screenshot \<Rightarrow>
          (case py_range 0 (scrollHeight d) (innerHeight d) of
             Inl e \<Rightarrow> ([], Inl e)
           | Inr ys \<Rightarrow>
               (case capture_loop fs d ys 0 full_screenshot of
                  (calls, Inl e) \<Rightarrow> (calls, Inl e)
                | (calls, Inr stitched) \<Rightarrow>
                    (let filepath = full_page_path fs (generate_filename timestamp ''full_page'' name)
                     in case Image_save fs stitched filepath of
                          Some e \<Rightarrow> (calls, Inl e)
                        | None \<Rightarrow> (calls, Inr (filepath, stitched))))))"

text \<open>
  The PNG encoding of a black raster 640 wide and 400 high (one bit per pixel): the
  signature, the header chunk, one data chunk and the end chunk.
\<close>

definition black_640_400_png :: string where
  "black_640_400_png = png_header_start @
     [CHR 0x00, CHR 0x00, CHR 0x02, CHR 0x80, CHR 0x00, CHR 0x00, CHR 0x01, CHR 0x90, CHR 0x01,
     CHR 0x00, CHR 0x00, CHR 0x00, CHR 0x00, CHR 0x16, CHR 0x88, CHR 0xEC, CHR 0x88, CHR 0x00,
     CHR 0x00, CHR 0x00, CHR 0x36, CHR 0x49, CHR 0x44, CHR 0x41, CHR 0x54, CHR 0x78, CHR 0xDA,
     CHR 0xED, CHR 0xC1, CHR 0x31, CHR 0x01, CHR 0x00, CHR 0x00, CHR 0x00, CHR 0xC2, CHR 0xA0,
     CHR 0xF5, CHR 0x4F, CHR 0x6D, CHR 0x0D, CHR 0x0F, CHR 0xA0, CHR 0x00, CHR 0x00, CHR 0x00,
     CHR 0x00, CHR 0x00, CHR 0x00, CHR 0x00, CHR 0x00, CHR 0x00, CHR 0x00, CHR 0x00, CHR 0x00,
     CHR 0x00, CHR 0x00, CHR 0x00, CHR 0x00, CHR 0x00, CHR 0x00, CHR 0x00, CHR 0x00, CHR 0x00,
     CHR 0x00, CHR 0x00, CHR 0x00, CHR 0x00, CHR 0x00, CHR 0x00, CHR 0x00, CHR 0x00, CHR 0x00,
     CHR 0x00, CHR 0x78, CHR 0x34, CHR 0x7E, CHR 0x90, CHR 0x00, CHR 0x01, CHR 0x75, CHR 0xEC,
     CHR 0xDB, CHR 0xA8, CHR 0x00, CHR 0x00, CHR 0x00, CHR 0x00, CHR 0x49, CHR 0x45, CHR 0x4E,
     CHR 0x44, CHR 0xAE, CHR 0x42, CHR 0x60, CHR 0x82]"

text \<open>
  A driver whose page is 1000 high and 640 wide, seen through a viewport 400 high, every
  screenshot the stream above; and a file system with no image files, where every write
  succeeds.
\<close>

definition page_1000_driver :: driver where
  "page_1000_driver = \<lparr>scrollHeight = 1000, scrollWidth = 640, innerHeight = 400,
     scroll_to = (\<lambda>k y. None), get_screenshot_as_png = (\<lambda>k y. Inr black_640_400_png)\<rparr>"

definition empty_disk :: file_system where
  "empty_disk = \<lparr>image_at = (\<lambda>p. Inl OSError), open_wb = (\<lambda>p. None),
     write_png = (\<lambda>p im. None), full_page_path = (\<lambda>f. ''screenshots/full_page/'' @ f)\<rparr>"

section \<open>Meta tags (crawler.py, extract_meta_tags)\<close>

text \<open>
  What \<open>extract_meta_tags\<close> reads from the parsed page: the \<open>lang\<close> attribute of the
  \<open>html\<close> element (\<open>None\<close> when the page has no such element, \<open>Some None\<close> when the
  element has no such attribute), the \<open>meta\<close> elements in document order with their
  \<open>name\<close>, \<open>property\<close> and \<open>content\<close> attributes, the \<open>href\<close> of the first
  \<open>link rel="icon"\<close> and \<open>link rel="shortcut icon"\<close> elements, and the text of the
  \<open>title\<close> element.
\<close>

record meta_tag =
  name_attr :: "string option"
  property_attr :: "string option"
  content_attr :: "string option"

record soup =
  html_lang :: "string option option"
  meta_elements :: "meta_tag list"
  icon_link :: "string option option"
  shortcut_icon_link :: "string option option"
  title_text :: "string option"

definition multi_valued :: "string list" where
  "multi_valued = [''og:title'', ''og:url'', ''og:description'', ''og:image'']"

text \<open>\<open>meta.get('name', meta.get('property', ''))\<close> and \<open>meta.get('content', '')\<close>.\<close>

definition tag_name :: "meta_tag \<Rightarrow> string" where
  "tag_name t =
     (case name_attr t of
        Some n \<Rightarrow> n
      | None \<Rightarrow> (case property_attr t of Some p \<Rightarrow> p | None \<Rightarrow> []))"

definition tag_content :: "meta_tag \<Rightarrow> string" where
  "tag_content t = (case content_attr t of Some c \<Rightarrow> c | None \<Rightarrow> [])"

text \<open>
  The body of the loop over the \<open>meta\<close> elements (lines 472-481).  \<open>append\<close> on a value
  that is not a list raises \<open>AttributeError\<close>.
\<close>

definition meta_step :: "meta_dict \<Rightarrow> meta_tag \<Rightarrow> py_error + meta_dict" where
  "meta_step m t =
     (let name = tag_name t; content = tag_content t in
      if name \<noteq> [] \<and> content \<noteq> [] then
        if name \<in> set multi_valued then
          (let m1 = (if map_of m name = None then AList.update name (MList []) m else m) in
           case map_of m1 name of
             Some (MList vs) \<Rightarrow> Inr (AList.update name (MList (vs @ [content])) m1)
           | Some (MStr s) \<Rightarrow> Inl AttributeError
           | Some (MInt i) \<Rightarrow> Inl AttributeError
           | None \<Rightarrow> Inl KeyError)
        else Inr (AList.update name (MStr content) m)
      else Inr m)"

fun meta_pass :: "meta_dict \<Rightarrow> meta_tag list \<Rightarrow> py_error + meta_dict" where
  "meta_pass m [] = Inr m"
| "meta_pass m (t # ts) =
     (case meta_step m t of Inl e \<Rightarrow> Inl e | Inr m' \<Rightarrow> meta_pass m' ts)"

text \<open>The dictionary the function starts from (lines 461-468), given the page's language.\<close>

definition initial_meta :: "string \<Rightarrow> string \<Rightarrow> string option \<Rightarrow> meta_dict" where
  "initial_meta scrape_id current_url lang =
     [(''scrapeId'', MStr scrape_id),
      (''sourceURL'', MStr current_url),
      (''statusCode'', MInt 200),
      (''url'', MStr current_url),
      (''language'', MStr (case lang of Some l \<Rightarrow> l | None \<Rightarrow> ''en-US''))]"

text \<open>The derived fields added after the loop (lines 483-503).\<close>

definition add_favicon :: "soup \<Rightarrow> meta_dict \<Rightarrow> meta_dict" where
  "add_favicon s m =
     (case (case icon_link s of Some h \<Rightarrow> Some h | None \<Rightarrow> shortcut_icon_link s) of
        Some (Some href) \<Rightarrow> if href \<noteq> [] then AList.update ''favicon'' (MStr href) m else m
      | Some None \<Rightarrow> m
      | None \<Rightarrow> m)"

definition add_title :: "soup \<Rightarrow> meta_dict \<Rightarrow> meta_dict" where
  "add_title s m = (case title_text s of Some t \<Rightarrow> AList.update ''title'' (MStr t) m | None \<Rightarrow> m)"

definition add_site_name :: "meta_dict \<Rightarrow> meta_dict" where
  "add_site_name m =
     (case map_of m ''og:site_name'' of
        Some n \<Rightarrow> m
      | None \<Rightarrow> (case map_of m ''title'' of Some t \<Rightarrow> AList.update ''og:site_name'' t m | None \<Rightarrow> m))"

definition add_type :: "meta_dict \<Rightarrow> meta_dict" where
  "add_type m =
     (if map_of m ''og:type'' = None then AList.update ''og:type'' (MStr ''website'') m else m)"

definition add_viewport :: "meta_dict \<Rightarrow> meta_dict" where
  "add_viewport m =
     (if map_of m ''viewport'' = None
      then AList.update ''viewport'' (MStr ''width=device-width, initial-scale=1'') m else m)"

definition derived_meta :: "soup \<Rightarrow> meta_dict \<Rightarrow> meta_dict" where
  "derived_meta s m = add_viewport (add_type (add_site_name (add_title s (add_favicon s m))))"

text \<open>
  \<open>extract_meta_tags\<close>, given the fresh UUID, the driver's current URL and the parsed
  page.  A page without \<open>html\<close> element makes \<open>soup.find("html").get\<close> raise.
\<close>

definition extract_meta_tags :: "string \<Rightarrow> string \<Rightarrow> soup \<Rightarrow> py_error + meta_dict" where
  "extract_meta_tags scrape_id current_url s =
     (case html_lang s of
        None \<Rightarrow> Inl AttributeError
      | Some lang \<Rightarrow>
          (case meta_pass (initial_meta scrape_id current_url lang) (meta_elements s) of
             Inl e \<Rightarrow> Inl e
           | Inr m1 \<Rightarrow> Inr (derived_meta s m1)))"

text \<open>
  The non-empty contents of the \<open>meta\<close> elements whose name is \<open>k\<close>, in document order:
  the occurrences of the key \<open>k\<close> that the loop acts on.
\<close>

definition occurrences :: "string \<Rightarrow> meta_tag list \<Rightarrow> string list" where
  "occurrences k ts = map tag_content (filter (\<lambda>t. tag_name t = k \<and> tag_content t \<noteq> []) ts)"

text \<open>
  A page with two \<open>og:image\<close> elements and two \<open>description\<close> elements, among others.
\<close>

definition two_images_page :: "meta_tag list" where
  "two_images_page =
     [\<lparr>name_attr = None, property_attr = Some ''og:image'', content_attr = Some ''a.png''\<rparr>,
      \<lparr>name_attr = Some ''description'', property_attr = None, content_attr = Some ''first''\<rparr>,
      \<lparr>name_attr = None, property_attr = Some ''og:image'', content_attr = Some ''b.png''\<rparr>,
      \<lparr>name_attr = Some ''description'', property_attr = None, content_attr = Some ''second''\<rparr>,
      \<lparr>name_attr = Some ''viewport'', property_attr = None, content_attr = None\<rparr>]"

text \<open>
  Auxiliary notions for the loop: the list already stored under a key, and the property
  that every multi-valued key is absent or holds a list.
\<close>

definition prev_list :: "meta_dict \<Rightarrow> string \<Rightarrow> string list" where
  "prev_list m k = (case map_of m k of Some (MList vs) \<Rightarrow> vs | _ \<Rightarrow> [])"

definition list_or_absent :: "meta_dict \<Rightarrow> bool" where
  "list_or_absent m = list_all (\<lambda>k. case map_of m k of None \<Rightarrow> True | Some (MList vs) \<Rightarrow> True | _ \<Rightarrow> False) multi_valued"

definition two_images_soup :: soup where
  "two_images_soup = \<lparr>html_lang = Some None, meta_elements = two_images_page,
     icon_link = None, shortcut_icon_link = None, title_text = Some ''T''\<rparr>"

section \<open>URL parsing (urllib.parse of the Python standard library)\<close>

text \<open>
  \<open>normalize_url\<close>, \<open>Map\<close> and \<open>crawl\<close> call \<open>urlparse\<close> and \<open>urljoin\<close> of the
  standard library.  They are modelled here after the library's source (CPython 3.11, the
  version the package requires), function by function.  Two checks of the library reach
  into other modules and are taken as parameters: whether \<open>_check_bracketed_host\<close>
  accepts the host between the brackets of a network location (it consults \<open>ipaddress\<close>),
  and whether \<open>_checknetloc\<close> accepts a network location with non-ASCII characters (it
  consults \<open>unicodedata\<close>).  The regular expressions of \<open>re\<close> are parameters as well.
\<close>

record pylib =
  bracketed_host_ok :: "string \<Rightarrow> bool"
  nfkc_ok :: "string \<Rightarrow> bool"
  re_compiles :: "string \<Rightarrow> bool"
  re_search :: "string \<Rightarrow> string \<Rightarrow> bool"

definition uses_relative :: "string list" where
  "uses_relative = ['''', ''ftp'', ''http'', ''gopher'', ''nntp'', ''imap'',
     ''wais'', ''file'', ''https'', ''shttp'', ''mms'',
     ''prospero'', ''rtsp'', ''rtsps'', ''rtspu'', ''sftp'',
     ''svn'', ''svn+ssh'', ''ws'', ''wss'']"

definition uses_netloc :: "string list" where
  "uses_netloc = ['''', ''ftp'', ''http'', ''gopher'', ''nntp'', ''telnet'',
     ''imap'', ''wais'', ''file'', ''mms'', ''https'', ''shttp'',
     ''snews'', ''prospero'', ''rtsp'', ''rtsps'', ''rtspu'', ''rsync'',
     ''svn'', ''svn+ssh'', ''sftp'', ''nfs'', ''git'', ''git+ssh'',
     ''ws'', ''wss'']"

definition uses_params :: "string list" where
  "uses_params = ['''', ''ftp'', ''hdl'', ''prospero'', ''http'', ''imap'',
     ''https'', ''shttp'', ''rtsp'', ''rtsps'', ''rtspu'', ''sip'',
     ''sips'', ''mms'', ''sftp'', ''tel'']"

definition ascii_lowercase :: string where
  "ascii_lowercase = ''abcdefghijklmnopqrstuvwxyz''"

definition ascii_uppercase :: string where
  "ascii_uppercase = ''ABCDEFGHIJKLMNOPQRSTUVWXYZ''"

definition scheme_chars :: string where
  "scheme_chars = ascii_lowercase @ ascii_uppercase @ ''0123456789'' @ ''+-.''"

text \<open>\<open>str.lower\<close> on a character; only the ASCII capitals occur where it is used.\<close>

definition ascii_lower :: "char \<Rightarrow> char" where
  "ascii_lower c = (case map_of (zip ascii_uppercase ascii_lowercase) c of Some d \<Rightarrow> d | None \<Rightarrow> c)"

text \<open>
  The characters \<open>_WHATWG_C0_CONTROL_OR_SPACE\<close> (code points 0 to 32) and
  \<open>_UNSAFE_URL_BYTES_TO_REMOVE\<close> (tab, carriage return, line feed).
\<close>

definition c0_or_space :: "char \<Rightarrow> bool" where
  "c0_or_space c = ((of_char c :: nat) \<le> 32)"

definition unsafe_byte :: "char \<Rightarrow> bool" where
  "unsafe_byte c = (c = CHR 0x09 \<or> c = CHR 0x0D \<or> c = CHR 0x0A)"

definition remove_unsafe :: "string \<Rightarrow> string" where
  "remove_unsafe s = filter (\<lambda>c. \<not> unsafe_byte c) s"

text \<open>
  \<open>s.split(c, 1)\<close> when \<open>c\<close> occurs in \<open>s\<close>: the text before the first \<open>c\<close> and the
  text after it.
\<close>

definition before :: "char \<Rightarrow> string \<Rightarrow> string" where
  "before c s = takeWhile (\<lambda>x. x \<noteq> c) s"

definition after :: "char \<Rightarrow> string \<Rightarrow> string" where
  "after c s = drop 1 (dropWhile (\<lambda>x. x \<noteq> c) s)"

record split_result =
  scheme :: string
  netloc :: string
  path :: string
  query :: string
  fragment :: string

record parse_result = split_result +
  params :: string

text \<open>The scheme test of \<open>urlsplit\<close> (\<open>i = url.find(':')\<close> and the loop over \<open>url[:i]\<close>).\<close>

definition split_scheme :: "string \<Rightarrow> string \<Rightarrow> string \<times> string" where
  "split_scheme dflt url =
     (let pre = before CHR '':'' url in
      if CHR '':'' \<in> set url \<and> pre \<noteq> [] \<and> hd url \<in> set (ascii_lowercase @ ascii_uppercase)
         \<and> list_all (\<lambda>c. c \<in> set scheme_chars) pre
      then (map ascii_lower pre, after CHR '':'' url)
      else (dflt, url))"

text \<open>\<open>_splitnetloc(url, 2)\<close>: the network location ends at the first of \<open>/ ? #\<close>.\<close>

definition netloc_delim :: "char \<Rightarrow> bool" where
  "netloc_delim c = (c = CHR ''/'' \<or> c = CHR ''?'' \<or> c = CHR ''#'')"

definition splitnetloc :: "string \<Rightarrow> string \<times> string" where
  "splitnetloc url =
     (takeWhile (\<lambda>c. \<not> netloc_delim c) (drop 2 url), dropWhile (\<lambda>c. \<not> netloc_delim c) (drop 2 url))"

text \<open>
  The bracket checks of \<open>urlsplit\<close>: an unmatched bracket raises, and so does a
  bracketed host that \<open>_check_bracketed_host\<close> refuses.
\<close>

definition bracketed_host :: "string \<Rightarrow> string" where
  "bracketed_host nl = before CHR '']'' (after CHR ''['' nl)"

definition brackets_accepted :: "pylib \<Rightarrow> string \<Rightarrow> bool" where
  "brackets_accepted lib nl =
     (if (CHR ''['' \<in> set nl \<and> CHR '']'' \<notin> set nl) \<or> (CHR '']'' \<in> set nl \<and> CHR ''['' \<notin> set nl)
      then False
      else if CHR ''['' \<in> set nl \<and> CHR '']'' \<in> set nl
      then bracketed_host_ok lib (bracketed_host nl)
      else True)"

definition checknetloc :: "pylib \<Rightarrow> string \<Rightarrow> bool" where
  "checknetloc lib nl =
     (if nl = [] \<or> list_all (\<lambda>c. (of_char c :: nat) < 128) nl then True else nfkc_ok lib nl)"

definition urlsplit :: "pylib \<Rightarrow> string \<Rightarrow> string \<Rightarrow> py_error + split_result" where
  "urlsplit lib url0 scheme0 =
     (let url1 = remove_unsafe (dropWhile c0_or_space url0);
          scheme1 = remove_unsafe (rev (dropWhile c0_or_space (rev (dropWhile c0_or_space scheme0))));
          (scheme2, url2) = split_scheme scheme1 url1;
          (netloc2, url3) = (if take 2 url2 = ''//'' then splitnetloc url2 else ([], url2))
      in if take 2 url2 = ''//'' \<and> \<not> brackets_accepted lib netloc2 then Inl ValueError
         else
           let (url4, fragment2) =
                 (if CHR ''#'' \<in> set url3 then (before CHR ''#'' url3, after CHR ''#'' url3)
                  else (url3, []));
               (url5, query2) =
                 (if CHR ''?'' \<in> set url4 then (before CHR ''?'' url4, after CHR ''?'' url4)
                  else (url4, []))
           in if checknetloc lib netloc2
              then Inr \<lparr>scheme = scheme2, netloc = netloc2, path = url5, query = query2,
                     fragment = fragment2\<rparr>
              else Inl ValueError)"

text \<open>
  \<open>_splitparams\<close>: the parameters start at the first \<open>;\<close> of the last path segment.
  Without any \<open>;\<close> and any \<open>/\<close> the library's index arithmetic (\<open>i = -1\<close>) drops the
  last character of the path and returns the whole of it as parameters; \<open>urlparse\<close>
  never calls it so.
\<close>

definition splitparams :: "string \<Rightarrow> string \<times> string" where
  "splitparams url =
     (if CHR ''/'' \<in> set url then
        (let seg = rev (takeWhile (\<lambda>c. c \<noteq> CHR ''/'') (rev url));
             dir = take (length url - length seg) url
         in if CHR '';'' \<in> set seg
            then (dir @ before CHR '';'' seg, after CHR '';'' seg)
            else (url, []))
      else if CHR '';'' \<in> set url then (before CHR '';'' url, after CHR '';'' url)
      else (butlast url, url))"

definition urlparse :: "pylib \<Rightarrow> string \<Rightarrow> string \<Rightarrow> py_error + parse_result" where
  "urlparse lib url scheme0 =
     (case urlsplit lib url scheme0 of
        Inl e \<Rightarrow> Inl e
      | Inr r \<Rightarrow>
          if scheme r \<in> set uses_params \<and> CHR '';'' \<in> set (path r)
          then (case splitparams (path r) of
                  (url', params') \<Rightarrow>
                    Inr \<lparr>scheme = scheme r, netloc = netloc r, path = url', query = query r,
                      fragment = fragment r, params = params'\<rparr>)
          else Inr \<lparr>scheme = scheme r, netloc = netloc r, path = path r, query = query r,
                 fragment = fragment r, params = []\<rparr>)"

definition urlunsplit :: "string \<Rightarrow> string \<Rightarrow> string \<Rightarrow> string \<Rightarrow> string \<Rightarrow> string" where
  "urlunsplit scheme0 netloc0 url0 query0 fragment0 =
     (let url1 = (if netloc0 \<noteq> [] \<or> (scheme0 \<noteq> [] \<and> scheme0 \<in> set uses_netloc) \<or> take 2 url0 = ''//''
                  then ''//'' @ netloc0 @ (if url0 \<noteq> [] \<and> take 1 url0 \<noteq> ''/'' then ''/'' @ url0 else url0)
                  else url0);
          url2 = (if scheme0 \<noteq> [] then scheme0 @ '':'' @ url1 else url1);
          url3 = (if query0 \<noteq> [] then url2 @ ''?'' @ query0 else url2)
      in if fragment0 \<noteq> [] then url3 @ ''#'' @ fragment0 else url3)"

definition urlunparse :: "string \<Rightarrow> string \<Rightarrow> string \<Rightarrow> string \<Rightarrow> string \<Rightarrow> string \<Rightarrow> string" where
  "urlunparse scheme0 netloc0 url0 params0 query0 fragment0 =
     urlunsplit scheme0 netloc0 (if params0 \<noteq> [] then url0 @ '';'' @ params0 else url0)
       query0 fragment0"

text \<open>\<open>s.split('/')\<close>.\<close>

fun py_split :: "char \<Rightarrow> string \<Rightarrow> string list" where
  "py_split c [] = [[]]"
| "py_split c (x # xs) =
     (if x = c then [] # py_split c xs
      else (case py_split c xs of [] \<Rightarrow> [[x]] | s # ss \<Rightarrow> (x # s) # ss))"

text \<open>The loop of \<open>urljoin\<close> that resolves the dot segments.\<close>

fun resolve_segments :: "string list \<Rightarrow> string list \<Rightarrow> string list" where
  "resolve_segments [] resolved_path = resolved_path"
| "resolve_segments (seg # segs) resolved_path =
     (if seg = ''..'' then resolve_segments segs (butlast resolved_path)
      else if seg = ''.'' then resolve_segments segs resolved_path
      else resolve_segments segs (resolved_path @ [seg]))"

text \<open>\<open>segments[1:-1] = filter(None, segments[1:-1])\<close>.\<close>

definition drop_empty_inner :: "string list \<Rightarrow> string list" where
  "drop_empty_inner segments =
     (if length segments < 2 then segments
      else hd segments # filter (\<lambda>s. s \<noteq> []) (butlast (tl segments)) @ [last segments])"

definition urljoin :: "pylib \<Rightarrow> string \<Rightarrow> string \<Rightarrow> py_error + string" where
  "urljoin lib base url =
     (if base = [] then Inr url
      else if url = [] then Inr base
      else
        (case urlparse lib base [] of
           Inl e \<Rightarrow> Inl e
         | Inr b \<Rightarrow>
             (case urlparse lib url (scheme b) of
                Inl e \<Rightarrow> Inl e
              | Inr u \<Rightarrow>
                  if scheme u \<noteq> scheme b \<or> scheme u \<notin> set uses_relative then Inr url
                  else if scheme u \<in> set uses_netloc \<and> netloc u \<noteq> []
                  then Inr (urlunparse (scheme u) (netloc u) (path u) (params u) (query u) (fragment u))
                  else
                    (let netloc1 = (if scheme u \<in> set uses_netloc then netloc b else netloc u) in
                     if path u = [] \<and> params u = []
                     then Inr (urlunparse (scheme u) netloc1 (path b) (params b)
                            (if query u = [] then query b else query u) (fragment u))
                     else
                       (let base_parts0 = py_split CHR ''/'' (path b);
                            base_parts = (if last base_parts0 \<noteq> [] then butlast base_parts0
                                          else base_parts0);
                            segments = (if take 1 (path u) = ''/'' then py_split CHR ''/'' (path u)
                                        else drop_empty_inner (base_parts @ py_split CHR ''/'' (path u)));
                            resolved0 = resolve_segments segments [];
                            resolved_path = (if last segments = ''.'' \<or> last segments = ''..''
                                             then resolved0 @ [[]] else resolved0);
                            joined = py_join ''/'' resolved_path
                        in Inr (urlunparse (scheme u) netloc1 (if joined = [] then ''/'' else joined)
                                  (params u) (query u) (fragment u)))))))"

text \<open>
  A library instance for concrete evaluations: it accepts every bracketed host and every
  non-ASCII network location, and its regular expressions always compile and match.  The
  URLs evaluated below have network locations without brackets and in ASCII only, and no
  filter pattern, where the real library does the same.
\<close>

definition plain_lib :: pylib where
  "plain_lib = \<lparr>bracketed_host_ok = (\<lambda>h. True), nfkc_ok = (\<lambda>n. True),
     re_compiles = (\<lambda>p. True), re_search = (\<lambda>p s. True)\<rparr>"

section \<open>Link extraction (crawler.py, Map and its normalize_url)\<close>

text \<open>
  \<open>normalize_url\<close> is a closure over \<open>base_url\<close> (an optional argument of \<open>Map\<close>) and
  \<open>current_url\<close> (the driver's).  An exception of \<open>urljoin\<close> leaves the function; one of
  \<open>urlparse\<close> is caught and gives \<open>None\<close>.
\<close>

definition py_true :: "string option \<Rightarrow> bool" where
  "py_true s = (case s of None \<Rightarrow> False | Some x \<Rightarrow> x \<noteq> [])"

definition absolute_url :: "pylib \<Rightarrow> string option \<Rightarrow> string \<Rightarrow> string \<Rightarrow> py_error + string" where
  "absolute_url lib base_url current_url url =
     (if py_true base_url \<and> \<not> startswith url [''http://'', ''https://'']
      then urljoin lib (case base_url of Some b \<Rightarrow> b | None \<Rightarrow> []) url
      else if \<not> startswith url [''http://'', ''https://'']
      then urljoin lib current_url url
      else Inr url)"

definition normalize_url :: "pylib \<Rightarrow> string option \<Rightarrow> string \<Rightarrow> string \<Rightarrow> py_error + string option" where
  "normalize_url lib base_url current_url url =
     (if url = [] \<or> startswith url [''javascript:'', ''mailto:'', ''tel:'', ''#'', ''data:'']
      then Inr None
      else
        (case absolute_url lib base_url current_url url of
           Inl e \<Rightarrow> Inl e
         | Inr u \<Rightarrow>
             (case urlparse lib u [] of
                Inl e \<Rightarrow> Inr None
              | Inr parsed \<Rightarrow>
                  Inr (Some (scheme parsed @ ''://'' @ netloc parsed @ path parsed @
                    (if query parsed \<noteq> [] then ''?'' @ query parsed else []))))))"

text \<open>
  The URL as \<open>urlsplit\<close> reads it: leading control characters and spaces stripped, and
  tab, carriage return and line feed removed.
\<close>

definition clean :: "string \<Rightarrow> string" where
  "clean url = remove_unsafe (dropWhile c0_or_space url)"

text \<open>
  A path in the form \<open>urlparse\<close> leaves it: what a second parse takes for the path again.
\<close>

definition settled_path :: "string \<Rightarrow> bool" where
  "settled_path p = ((p = [] \<or> hd p = CHR ''/'') \<and> (CHR '';'' \<in> set p \<longrightarrow> splitparams p = (p, [])))"

text \<open>
  What \<open>Map\<close> reads from the browser: the driver's current URL and, in document order,
  the \<open>href\<close> of every anchor with one, the \<open>src\<close> of every image, the \<open>href\<close> of
  every style sheet link and the \<open>src\<close> of every script.  Reading the page can raise
  (no driver, a dead session), which the argument \<open>py_error + browser_page\<close> records.
\<close>

record browser_page =
  page_url :: string
  anchor_hrefs :: "string list"
  img_srcs :: "string list"
  stylesheet_hrefs :: "string list"
  script_srcs :: "string list"

datatype map_error = InvalidBaseUrl | BaseUrlParseError py_error | InvalidFilterPattern
  | Raised py_error

record map_result =
  status :: string
  result_links :: "string list"
  result_error :: "map_error option"

definition map_failed :: "map_error \<Rightarrow> map_result" where
  "map_failed e = \<lparr>status = ''error'', result_links = [], result_error = Some e\<rparr>"

text \<open>
  The loops over the elements (lines 413-441) share one body: normalize, skip what is
  rejected or does not match the filter pattern, add the rest to the set.
\<close>

fun add_links :: "pylib \<Rightarrow> string option \<Rightarrow> string \<Rightarrow> string option \<Rightarrow> string list \<Rightarrow> string set
    \<Rightarrow> py_error + string set" where
  "add_links lib base_url cur filter_pattern [] links0 = Inr links0"
| "add_links lib base_url cur filter_pattern (h # hs) links0 =
     (case normalize_url lib base_url cur h of
        Inl e \<Rightarrow> Inl e
      | Inr None \<Rightarrow> add_links lib base_url cur filter_pattern hs links0
      | Inr (Some u) \<Rightarrow>
          if u = [] then add_links lib base_url cur filter_pattern hs links0
          else if py_true filter_pattern
                  \<and> \<not> re_search lib (case filter_pattern of Some p \<Rightarrow> p | None \<Rightarrow> []) u
          then add_links lib base_url cur filter_pattern hs links0
          else add_links lib base_url cur filter_pattern hs (insert u links0))"

text \<open>
  The elements \<open>Map\<close> loops over, in the order of its loops: the anchors, then (when
  assets are requested) the images, the style sheets and the scripts.
\<close>

definition page_hrefs :: "bool \<Rightarrow> browser_page \<Rightarrow> string list" where
  "page_hrefs include_assets page =
     anchor_hrefs page @
     (if include_assets then img_srcs page @ stylesheet_hrefs page @ script_srcs page else [])"

text \<open>The validation of \<open>base_url\<close> (lines 367-381).\<close>

definition validate_base_url :: "pylib \<Rightarrow> string option \<Rightarrow> map_error option" where
  "validate_base_url lib base_url =
     (if py_true base_url
      then (case urlparse lib (case base_url of Some b \<Rightarrow> b | None \<Rightarrow> []) [] of
              Inl e \<Rightarrow> Some (BaseUrlParseError e)
            | Inr parsed \<Rightarrow>
                if scheme parsed = [] \<or> netloc parsed = [] then Some InvalidBaseUrl else None)
      else None)"

definition Map :: "pylib \<Rightarrow> string option \<Rightarrow> bool \<Rightarrow> string option \<Rightarrow> py_error + browser_page
    \<Rightarrow> map_result" where
  "Map lib base_url include_assets filter_pattern browser =
     (case validate_base_url lib base_url of
        Some e \<Rightarrow> map_failed e
      | None \<Rightarrow>
          if py_true filter_pattern
             \<and> \<not> re_compiles lib (case filter_pattern of Some p \<Rightarrow> p | None \<Rightarrow> [])
          then map_failed InvalidFilterPattern
          else
            (case browser of
               Inl e \<Rightarrow> map_failed (Raised e)
             | Inr page \<Rightarrow>
                 (case add_links lib base_url (page_url page) filter_pattern
                         (page_hrefs include_assets page) {} of
                    Inl e \<Rightarrow> map_failed (Raised e)
                  | Inr links1 \<Rightarrow>
                      \<lparr>status = ''success'', result_links = sorted_list_of_set links1,
                        result_error = None\<rparr>)))"

text \<open>A page whose anchors are not in alphabetical order and repeat a link.\<close>

definition unordered_page :: browser_page where
  "unordered_page = \<lparr>page_url = ''http://a.com/'',
     anchor_hrefs = [''/b'', ''http://a.com/a#top'', ''/b#again'', ''mailto:x@a.com''],
     img_srcs = [], stylesheet_hrefs = [], script_srcs = []\<rparr>"

section \<open>Scraping one URL (scrape.py, Scrape.scrape)\<close>

text \<open>
  What the browser session yields while one URL is scraped: whether performing the
  actions raises, the clock, the document \<open>_extract_json\<close> builds, the page source, and
  the page as \<open>Map\<close> reads it.  (\<open>ensure_browser_open\<close> and \<open>go_to_url\<close> catch their
  exceptions and return a message; a browser that did not open shows in the later reads.)
\<close>

datatype action = Wait nat | Click string | Write string string | Press string

record visit =
  actions_error :: "py_error option"
  now :: string
  extracted :: "py_error + document"
  page_source :: "py_error + string"
  browser :: "py_error + browser_page"

datatype format_value = FMarkdown string | FJson document | FHtml string | FLinks "string list"
  | FScreenshot string

record scrape_result =
  res_url :: string
  res_timestamp :: "string option"
  res_error :: "py_error option"
  formats :: "(string \<times> format_value) list"

text \<open>
  \<open>_take_screenshot\<close> calls \<open>take_screenshot(full_page=...)\<close>, a keyword the method does
  not have, without its required \<open>filename\<close>: the call raises \<open>TypeError\<close>.
\<close>

definition take_screenshot_call :: "bool \<Rightarrow> py_error + string" where
  "take_screenshot_call full_page = Inl TypeError"

text \<open>
  The loop over the requested formats (lines 63-77): an \<open>if\<close>/\<open>elif\<close> chain over the
  seven known names, without \<open>else\<close>.
\<close>

fun format_loop :: "pylib \<Rightarrow> visit \<Rightarrow> string list \<Rightarrow> (string \<times> format_value) list
    \<Rightarrow> py_error + (string \<times> format_value) list" where
  "format_loop lib v [] fs = Inr fs"
| "format_loop lib v (f # rest) fs =
     (if f = ''markdown'' then
        (case extracted v of
           Inl e \<Rightarrow> Inl e
         | Inr d \<Rightarrow> format_loop lib v rest (AList.update ''markdown'' (FMarkdown (json_to_markdown d)) fs))
      else if f = ''json'' then
        (case extracted v of
           Inl e \<Rightarrow> Inl e
         | Inr d \<Rightarrow> format_loop lib v rest (AList.update ''json'' (FJson d) fs))
      else if f = ''html'' then
        (case page_source v of
           Inl e \<Rightarrow> Inl e
         | Inr h \<Rightarrow> format_loop lib v rest (AList.update ''html'' (FHtml h) fs))
      else if f = ''rawHtml'' then
        (case page_source v of
           Inl e \<Rightarrow> Inl e
         | Inr h \<Rightarrow> format_loop lib v rest (AList.update ''rawHtml'' (FHtml h) fs))
      else if f = ''screenshot'' then
        (case take_screenshot_call False of
           Inl e \<Rightarrow> Inl e
         | Inr p \<Rightarrow> format_loop lib v rest (AList.update ''screenshot'' (FScreenshot p) fs))
      else if f = ''screenshot@fullPage'' then
        (case take_screenshot_call True of
           Inl e \<Rightarrow> Inl e
         | Inr p \<Rightarrow> format_loop lib v rest (AList.update ''screenshot'' (FScreenshot p) fs))
      else if f = ''links'' then
        format_loop lib v rest
          (AList.update ''links'' (FLinks (result_links (Map lib None False None (browser v)))) fs)
      else format_loop lib v rest fs)"

definition scrape_failed :: "string \<Rightarrow> py_error \<Rightarrow> scrape_result" where
  "scrape_failed url0 e = \<lparr>res_url = url0, res_timestamp = None, res_error = Some e, formats = []\<rparr>"

definition scrape :: "pylib \<Rightarrow> visit \<Rightarrow> string \<Rightarrow> string list \<Rightarrow> action list option \<Rightarrow> scrape_result" where
  "scrape lib v url0 output_formats actions =
     (case (if actions \<noteq> None \<and> actions \<noteq> Some [] then actions_error v else None) of
        Some e \<Rightarrow> scrape_failed url0 e
      | None \<Rightarrow>
          (case format_loop lib v output_formats [] of
             Inl e \<Rightarrow> scrape_failed url0 e
           | Inr fs \<Rightarrow>
               \<lparr>res_url = url0, res_timestamp = Some (now v), res_error = None,
                 formats = fs\<rparr>))"

text \<open>The format names the chain knows.\<close>

definition supported_formats :: "string list" where
  "supported_formats = [''markdown'', ''json'', ''html'', ''rawHtml'', ''screenshot'',
     ''screenshot@fullPage'', ''links'']"

section \<open>The crawl loop (crawler.py, WebCrawler.crawl)\<close>

text \<open>
  The outside world of a crawl: what the scraper's browser yields at the \<open>k\<close>-th scrape,
  of a given URL with given actions, and what the crawler's own browser shows when the
  fallback \<open>self.Map(base_url=url)\<close> runs after the \<open>k\<close>-th scrape.
\<close>

record world =
  visit_of :: "nat \<Rightarrow> string \<Rightarrow> action list option \<Rightarrow> visit"
  own_browser :: "nat \<Rightarrow> py_error + browser_page"

record crawl_params =
  start_url :: string
  output_formats :: "string list"
  max_depth :: int
  follow_subdomains :: bool
  rate_limit :: real
  actions_per_url :: "(string \<times> action list) list"

text \<open>
  The state of the loop: the queue, the set \<open>seen\<close> and the dictionary \<open>results\<close> of
  the source, and two logs of what the loop has done: the entries popped from the queue
  and the calls of \<open>scraper.scrape\<close> (the lines \<open>Crawling: url (depth d)\<close> of the
  source's log), both in order.
\<close>

record crawl_state =
  queue :: "(string \<times> int) list"
  seen :: "string set"
  results :: "(string \<times> scrape_result) list"
  popped :: "(string \<times> int) list"
  scraped :: "(string \<times> int) list"

definition initial_state :: "crawl_params \<Rightarrow> crawl_state" where
  "initial_state P = \<lparr>queue = [(start_url P, 0)], seen = {}, results = [], popped = [],
     scraped = []\<rparr>"

text \<open>
  The loop over the links of a page (lines 715-723), appending to the queue.  \<open>urlparse\<close>
  is not guarded here: its \<open>ValueError\<close> leaves \<open>crawl\<close>.
\<close>

fun link_loop :: "pylib \<Rightarrow> bool \<Rightarrow> string \<Rightarrow> string set \<Rightarrow> int \<Rightarrow> string list
    \<Rightarrow> (string \<times> int) list \<Rightarrow> py_error + (string \<times> int) list" where
  "link_loop lib follow base_domain seen0 depth [] q = Inr q"
| "link_loop lib follow base_domain seen0 depth (l # ls) q =
     (case urlparse lib l [] of
        Inl e \<Rightarrow> Inl e
      | Inr parsed \<Rightarrow>
          if \<not> prefix ''http'' (scheme parsed) then link_loop lib follow base_domain seen0 depth ls q
          else if \<not> follow \<and> netloc parsed \<noteq> base_domain
          then link_loop lib follow base_domain seen0 depth ls q
          else if l \<notin> seen0
          then link_loop lib follow base_domain seen0 depth ls (q @ [(l, depth + 1)])
          else link_loop lib follow base_domain seen0 depth ls q)"

text \<open>
  The links of the page just scraped (lines 707-714): those of the \<open>links\<close> format when
  it was requested and is not empty, otherwise those \<open>Map\<close> finds in the crawler's own
  browser.
\<close>

definition page_links :: "pylib \<Rightarrow> world \<Rightarrow> nat \<Rightarrow> string \<Rightarrow> scrape_result \<Rightarrow> string list" where
  "page_links lib W k url0 result =
     (case map_of (formats result) ''links'' of
        Some (FLinks ls) \<Rightarrow>
          if ls \<noteq> [] then ls
          else result_links (Map lib (Some url0) False None (own_browser W k))
      | Some other \<Rightarrow> result_links (Map lib (Some url0) False None (own_browser W k))
      | None \<Rightarrow> result_links (Map lib (Some url0) False None (own_browser W k)))"

text \<open>
  One iteration of the \<open>while\<close> loop, on a state whose queue is not empty.
  \<open>time.sleep\<close> raises \<open>ValueError\<close> on a negative \<open>rate_limit\<close>.
\<close>

definition crawl_iter :: "pylib \<Rightarrow> world \<Rightarrow> crawl_params \<Rightarrow> string \<Rightarrow> crawl_state
    \<Rightarrow> py_error + crawl_state" where
  "crawl_iter lib W P base_domain st =
     (case queue st of
        [] \<Rightarrow> Inr st
      | (url0, depth) # rest \<Rightarrow>
          if url0 \<in> seen st \<or> depth > max_depth P
          then Inr (st\<lparr>queue := rest, popped := popped st @ [(url0, depth)]\<rparr>)
          else
            (let k = length (scraped st);
                 actions = map_of (actions_per_url P) url0;
                 result = scrape lib (visit_of W k url0 actions) url0 (output_formats P) actions;
                 st1 = st\<lparr>queue := rest, seen := insert url0 (seen st),
                         results := AList.update url0 result (results st),
                         popped := popped st @ [(url0, depth)],
                         scraped := scraped st @ [(url0, depth)]\<rparr>
             in if rate_limit P < 0 then Inl ValueError
                else if depth < max_depth P
                then (case link_loop lib (follow_subdomains P) base_domain (seen st1) depth
                             (page_links lib W k url0 result) rest of
                        Inl e \<Rightarrow> Inl e
                      | Inr q \<Rightarrow> Inr (st1\<lparr>queue := q\<rparr>))
                else Inr st1))"

text \<open>
  The \<open>while queue:\<close> loop.  It returns the state it stops in, with the exception when
  it stops by one.
\<close>

function crawl_loop :: "pylib \<Rightarrow> world \<Rightarrow> crawl_params \<Rightarrow> string \<Rightarrow> crawl_state
    \<Rightarrow> py_error option \<times> crawl_state" where
  "crawl_loop lib W P base_domain st =
     (if queue st = [] then (None, st)
      else (case crawl_iter lib W P base_domain st of
              Inl e \<Rightarrow> (Some e, st)
            | Inr st' \<Rightarrow> crawl_loop lib W P base_domain st'))"
  by pat_completeness auto

definition crawl :: "pylib \<Rightarrow> world \<Rightarrow> crawl_params \<Rightarrow> py_error + (string \<times> scrape_result) list" where
  "crawl lib W P =
     (case urlparse lib (start_url P) [] of
        Inl e \<Rightarrow> Inl e
      | Inr parsed \<Rightarrow>
          (case crawl_loop lib W P (netloc parsed) (initial_state P) of
             (Some e, st) \<Rightarrow> Inl e
           | (None, st) \<Rightarrow> Inr (results st)))"

text \<open>The first \<open>n\<close> iterations of the loop, for looking at the states in between.\<close>

fun crawl_steps :: "nat \<Rightarrow> pylib \<Rightarrow> world \<Rightarrow> crawl_params \<Rightarrow> string \<Rightarrow> crawl_state
    \<Rightarrow> py_error + crawl_state" where
  "crawl_steps 0 lib W P base_domain st = Inr st"
| "crawl_steps (Suc n) lib W P base_domain st =
     (case crawl_iter lib W P base_domain st of
        Inl e \<Rightarrow> Inl e
      | Inr st' \<Rightarrow> crawl_steps n lib W P base_domain st')"

text \<open>The weight of a queue entry for the termination of the loop: the levels left below it.\<close>

definition levels_left :: "crawl_params \<Rightarrow> (string \<times> int) \<Rightarrow> nat" where
  "levels_left P e = nat (max_depth P + 1 - snd e)"

text \<open>
  The link \<open>u\<close> that one element with address \<open>h\<close> adds to the set, when it adds one.
\<close>

definition kept_link :: "pylib \<Rightarrow> string option \<Rightarrow> string \<Rightarrow> string option \<Rightarrow> string \<Rightarrow> string \<Rightarrow> bool" where
  "kept_link lib base_url cur filter_pattern h u =
     (normalize_url lib base_url cur h = Inr (Some u) \<and> u \<noteq> [] \<and>
      \<not> (py_true filter_pattern \<and> \<not> re_search lib (case filter_pattern of Some p \<Rightarrow> p | None \<Rightarrow> []) u))"

text \<open>
  The invariant of the loop: the visited set is the set of the URLs scraped so far, each
  scraped once; the depths of the entries popped so far, followed by those still in the
  queue, never decrease; no queue entry is more than one level below the head of the
  queue; and the keys of \<open>results\<close> are the scraped URLs in order.
\<close>

definition head_depth :: "(string \<times> int) list \<Rightarrow> int" where
  "head_depth q = (case q of [] \<Rightarrow> 0 | e # es \<Rightarrow> snd e)"

definition crawl_inv :: "crawl_state \<Rightarrow> bool" where
  "crawl_inv st =
     (seen st = fst ` set (scraped st) \<and> distinct (map fst (scraped st))
      \<and> sorted (map snd (popped st @ queue st))
      \<and> list_all (\<lambda>e. snd e \<le> head_depth (queue st) + 1) (queue st)
      \<and> map fst (results st) = map fst (scraped st))"

text \<open>
  Worlds for concrete runs.  A visit that succeeds on a page with the given anchors; a
  site where the pages \<open>/b\<close> and \<open>/c\<close>, both linked from the start page, both link
  to \<open>/d\<close>; a crawl whose seed carries a fragment and whose start page links to
  itself; and a site whose start page links to a subdomain and to another domain.
\<close>

definition site_visit :: "string \<Rightarrow> string list \<Rightarrow> visit" where
  "site_visit url0 hrefs = \<lparr>actions_error = None, now = ''2024-01-01T00:00:00'',
     extracted = Inr hi_document, page_source = Inr ''<html></html>'',
     browser = Inr \<lparr>page_url = url0, anchor_hrefs = hrefs, img_srcs = [],
       stylesheet_hrefs = [], script_srcs = []\<rparr>\<rparr>"

definition diamond_links :: "string \<Rightarrow> string list" where
  "diamond_links url0 =
     (if url0 = ''http://a.com/'' then [''/b'', ''/c'']
      else if url0 = ''http://a.com/b'' \<or> url0 = ''http://a.com/c'' then [''/d'']
      else [])"

definition diamond_world :: world where
  "diamond_world = \<lparr>visit_of = (\<lambda>k url0 a. site_visit url0 (diamond_links url0)),
     own_browser = (\<lambda>k. Inl DriverError)\<rparr>"

definition diamond_params :: crawl_params where
  "diamond_params = \<lparr>start_url = ''http://a.com/'', output_formats = [''links''], max_depth = 2,
     follow_subdomains = False, rate_limit = 1, actions_per_url = []\<rparr>"

definition fragment_seed_world :: world where
  "fragment_seed_world = \<lparr>visit_of = (\<lambda>k url0 a. site_visit url0
       (if url0 = ''http://a.com/#top'' then [''/''] else [])),
     own_browser = (\<lambda>k. Inl DriverError)\<rparr>"

definition fragment_seed_params :: crawl_params where
  "fragment_seed_params = \<lparr>start_url = ''http://a.com/#top'', output_formats = [''links''],
     max_depth = 1, follow_subdomains = False, rate_limit = 1, actions_per_url = []\<rparr>"

definition offsite_links :: "string \<Rightarrow> string list" where
  "offsite_links url0 =
     (if url0 = ''http://a.com/'' then [''http://b.a.com/'', ''http://x.com/''] else [])"

definition offsite_world :: world where
  "offsite_world = \<lparr>visit_of = (\<lambda>k url0 a. site_visit url0 (offsite_links url0)),
     own_browser = (\<lambda>k. Inl DriverError)\<rparr>"

definition offsite_params :: "bool \<Rightarrow> crawl_params" where
  "offsite_params follow = \<lparr>start_url = ''http://a.com/'', output_formats = [''links''],
     max_depth = 1, follow_subdomains = follow, rate_limit = 1, actions_per_url = []\<rparr>"

section \<open>Properties of the renderer\<close>

lemma dropWhile_idem: "dropWhile P (dropWhile P xs) = dropWhile P xs"
  by (induction xs) auto

lemma py_rstrip_idem: "py_rstrip (py_rstrip s) = py_rstrip s"
  by (simp add: py_rstrip_def dropWhile_idem)

lemma py_lstrip_rstrip_lstrip: "py_lstrip (py_rstrip (py_lstrip s)) = py_rstrip (py_lstrip s)"
proof (cases "py_rstrip (py_lstrip s)")
  case Nil
  then show ?thesis by (simp add: py_lstrip_def)
next
  case (Cons c cs)
  then have ne: "py_lstrip s \<noteq> []"
    by (auto simp: py_rstrip_def)
  then have "\<not> py_isspace (hd (py_lstrip s))"
    unfolding py_lstrip_def by (metis hd_dropWhile)
  moreover have "prefix (py_rstrip (py_lstrip s)) (py_lstrip s)"
    unfolding py_rstrip_def
    by (metis prefix_def rev_append rev_rev_ident takeWhile_dropWhile_id)
  ultimately have "\<not> py_isspace c"
    using Cons ne by (cases "py_lstrip s") (auto simp: prefix_def)
  then show ?thesis
    using Cons by (simp add: py_lstrip_def)
qed

lemma py_strip_idem: "py_strip (py_strip s) = py_strip s"
  by (simp add: py_strip_def py_lstrip_rstrip_lstrip py_rstrip_idem)

lemma md_lines_hi: "md_lines hi_document = [''# **Hi**'', '''']"
  by (simp add: md_lines_def hi_document_def hi_section_def section_lines_def body_lines_def
      metadata_lines_def startswith_def)

lemma json_to_markdown_hi_value: "json_to_markdown hi_document = ''# **Hi**''"
proof -
  have "py_join [CHR 0x0A] (md_lines hi_document) = ''# **Hi**'' @ [CHR 0x0A]"
    by (simp add: md_lines_hi)
  then show ?thesis
    by (simp add: json_to_markdown_def py_strip_def py_lstrip_def py_rstrip_def py_isspace_def)
qed

text \<open>
  Claim C6, as the code has it.  The title-less document whose only section is
  \<open>{headline: "Hi", description: "", content: "", links: [], subsections: []}\<close>, with no
  reviews and no metadata, renders to exactly \<open># **Hi**\<close>: the joined lines are the
  heading followed by a newline, and the final \<open>strip()\<close> removes that newline.  For every
  document the rendered text is already stripped (stripping it again changes nothing).
\<close>

theorem json_to_markdown_hi:
  "json_to_markdown hi_document = ''# **Hi**''
   \<and> (\<forall>d. py_strip (json_to_markdown d) = json_to_markdown d)"
  by (simp add: json_to_markdown_hi_value) (simp add: json_to_markdown_def py_strip_idem)

text \<open>
  Claim C6 as the specification words it fails: the rendered text is not the heading
  followed by a newline.
\<close>

theorem json_to_markdown_hi_no_trailing_newline:
  "json_to_markdown hi_document \<noteq> ''# **Hi**'' @ [CHR 0x0A]"
  by (simp add: json_to_markdown_hi_value)

section \<open>Properties of the screenshot compositor\<close>

lemma py_range_0_1000_400: "py_range 0 1000 400 = Inr [0, 400, 800]"
proof -
  have "[0..<3] = [0, Suc 0, Suc (Suc 0)]"
    by (simp add: upt_rec)
  then show ?thesis
    by (simp add: py_range_def)
qed

lemma py_range_first:
  assumes "0 < stop" and "0 < step"
  shows "\<exists>ys. py_range 0 stop step = Inr (0 # ys)"
proof -
  from assms have "0 < (stop + step - 1) div step"
    by (simp add: pos_imp_zdiv_pos_iff)
  then obtain n where n: "nat ((stop + step - 1) div step) = Suc n"
    by (cases "nat ((stop + step - 1) div step)") auto
  from assms n show ?thesis
    by (simp add: py_range_def upt_conv_Cons del: upt_Suc)
qed

lemma is_png_zero_byte: "is_png bs \<Longrightarrow> CHR 0x00 \<in> set bs"
  by (auto simp: is_png_def png_header_start_def png_signature_def prefix_def)

lemma Image_open_png: "is_png bs \<Longrightarrow> Image_open fs bs = Inl ValueError"
  using is_png_zero_byte [of bs] by (auto simp: Image_open_def)

text \<open>
  Whatever the page, the viewport and the file system: when the first screenshot is a
  PNG stream, \<open>capture_full_page\<close> stops in the first round of its loop with the
  \<open>ValueError\<close> of \<open>Image.open\<close>, after one scroll and one capture, and saves nothing.
\<close>

lemma capture_full_page_png:
  assumes "0 < scrollHeight d" and "0 < innerHeight d" and "0 \<le> scrollWidth d"
    and "scroll_to d 0 0 = None" and "get_screenshot_as_png d 0 0 = Inr bs" and "is_png bs"
  shows "capture_full_page fs d timestamp name = ([ScrollTo 0, Screenshot], Inl ValueError)"
proof -
  from py_range_first [OF assms(1,2)] obtain ys
    where ys: "py_range 0 (scrollHeight d) (innerHeight d) = Inr (0 # ys)" by blast
  from assms(1,3) have new: "Image_new (scrollWidth d) (scrollHeight d)
      = Inr (Image (scrollWidth d) (scrollHeight d) [])"
    by (simp add: Image_new_def)
  have "capture_loop fs d (0 # ys) 0 (Image (scrollWidth d) (scrollHeight d) [])
      = ([ScrollTo 0, Screenshot], Inl ValueError)"
    using assms(4,5) Image_open_png [OF assms(6)] by simp
  with ys new show ?thesis
    by (simp add: capture_full_page_def)
qed

text \<open>
  Claim C9 fails on the code.  On the page 1000 high seen through a viewport 400 high
  the loop is set to run at the offsets 0, 400 and 800, but the first round hands the
  bytes of the screenshot to \<open>Image.open\<close>, which takes them for a file name and raises
  \<open>ValueError\<close>: \<open>capture_full_page\<close> makes one scroll and one capture, at offset 0, and
  raises without a stitched image.
\<close>

theorem capture_full_page_1000_400_raises:
  "py_range 0 (scrollHeight page_1000_driver) (innerHeight page_1000_driver) = Inr [0, 400, 800]
   \<and> is_png black_640_400_png
   \<and> Image_open empty_disk black_640_400_png = Inl ValueError
   \<and> capture_full_page empty_disk page_1000_driver ''20240101_120000'' None
       = ([ScrollTo 0, Screenshot], Inl ValueError)"
proof -
  have a: "py_range 0 (scrollHeight page_1000_driver) (innerHeight page_1000_driver)
      = Inr [0, 400, 800]"
    by (simp add: page_1000_driver_def py_range_0_1000_400)
  have b: "is_png black_640_400_png"
    by (simp add: is_png_def black_640_400_png_def)
  have c: "capture_full_page empty_disk page_1000_driver ''20240101_120000'' None
      = ([ScrollTo 0, Screenshot], Inl ValueError)"
    by (rule capture_full_page_png [OF _ _ _ _ _ b]) (simp_all add: page_1000_driver_def)
  from a b c Image_open_png [OF b] show ?thesis by blast
qed

section \<open>Properties of the metadata pass\<close>

lemma meta_step_ok:
  assumes "list_or_absent m"
  shows "\<exists>m'. meta_step m t = Inr m' \<and> list_or_absent m' \<and>
    (\<forall>k. map_of m' k =
       (if tag_name t = k \<and> tag_name t \<noteq> [] \<and> tag_content t \<noteq> []
        then (if k \<in> set multi_valued then Some (MList (prev_list m k @ [tag_content t]))
              else Some (MStr (tag_content t)))
        else map_of m k))"
  using assms
  by (auto simp: meta_step_def Let_def list_or_absent_def prev_list_def update_conv' list_all_iff split: option.splits meta_value.splits)

lemma occurrences_Cons:
  "occurrences k (t # ts) =
     (if tag_name t = k \<and> tag_content t \<noteq> [] then [tag_content t] else []) @ occurrences k ts"
  by (simp add: occurrences_def)

lemma meta_pass_ok:
  assumes "list_or_absent m"
  shows "\<exists>m'. meta_pass m ts = Inr m' \<and> list_or_absent m' \<and>
    (\<forall>k. map_of m' k =
       (if k = [] \<or> occurrences k ts = [] then map_of m k
        else if k \<in> set multi_valued then Some (MList (prev_list m k @ occurrences k ts))
        else Some (MStr (last (occurrences k ts)))))"
  using assms
proof (induction ts arbitrary: m)
  case Nil
  then show ?case by (simp add: occurrences_def)
next
  case (Cons t ts)
  from meta_step_ok [OF Cons.prems, of t] obtain m1 where
    s: "meta_step m t = Inr m1" and l1: "list_or_absent m1" and
    k1: "\<And>k. map_of m1 k =
       (if tag_name t = k \<and> tag_name t \<noteq> [] \<and> tag_content t \<noteq> []
        then (if k \<in> set multi_valued then Some (MList (prev_list m k @ [tag_content t]))
              else Some (MStr (tag_content t)))
        else map_of m k)"
    by blast
  from Cons.IH [OF l1] obtain m2 where
    p: "meta_pass m1 ts = Inr m2" and l2: "list_or_absent m2" and
    k2: "\<And>k. map_of m2 k =
       (if k = [] \<or> occurrences k ts = [] then map_of m1 k
        else if k \<in> set multi_valued then Some (MList (prev_list m1 k @ occurrences k ts))
        else Some (MStr (last (occurrences k ts))))"
    by blast
  have "map_of m2 k =
       (if k = [] \<or> occurrences k (t # ts) = [] then map_of m k
        else if k \<in> set multi_valued then Some (MList (prev_list m k @ occurrences k (t # ts)))
        else Some (MStr (last (occurrences k (t # ts)))))" for k
    by (auto simp: k2 k1 occurrences_Cons prev_list_def)
  with s p l2 show ?case by simp
qed

lemma initial_list_or_absent: "list_or_absent (initial_meta sid cur lang)"
  by (simp add: list_or_absent_def initial_meta_def multi_valued_def)

lemma add_favicon_other: "k \<noteq> ''favicon'' \<Longrightarrow> map_of (add_favicon s m) k = map_of m k"
  by (simp add: add_favicon_def update_conv' split: option.split)

lemma add_title_other: "k \<noteq> ''title'' \<Longrightarrow> map_of (add_title s m) k = map_of m k"
  by (simp add: add_title_def update_conv' split: option.split)

lemma add_site_name_other: "k \<noteq> ''og:site_name'' \<Longrightarrow> map_of (add_site_name m) k = map_of m k"
  by (simp add: add_site_name_def update_conv' split: option.split)

lemma add_type_other: "k \<noteq> ''og:type'' \<Longrightarrow> map_of (add_type m) k = map_of m k"
  by (simp add: add_type_def update_conv')

lemma add_viewport_other: "k \<noteq> ''viewport'' \<Longrightarrow> map_of (add_viewport m) k = map_of m k"
  by (simp add: add_viewport_def update_conv')

lemma derived_meta_og_image:
  "map_of (derived_meta s m) ''og:image'' = map_of m ''og:image''"
  by (simp add: derived_meta_def add_favicon_other add_title_other add_site_name_other
      add_type_other add_viewport_other)

text \<open>
  Claim C8.  On a page that has an \<open>html\<close> element the metadata pass never raises.
  When the \<open>og:image\<close> element occurs twice (with contents \<open>c1\<close> and \<open>c2\<close>, in
  document order), the entry for \<open>og:image\<close> is the two-element list \<open>[c1, c2]\<close>,
  after the loop and in the dictionary \<open>extract_meta_tags\<close> returns.  Every key of the
  multi-valued list holds the list of all its occurrences in document order, and every
  other key that occurs holds the string of its last occurrence.
\<close>

theorem extract_meta_tags_repeated_keys:
  assumes "html_lang s = Some lang"
  shows "\<exists>m1. meta_pass (initial_meta sid cur lang) (meta_elements s) = Inr m1
     \<and> extract_meta_tags sid cur s = Inr (derived_meta s m1)
     \<and> (\<forall>c1 c2. occurrences ''og:image'' (meta_elements s) = [c1, c2] \<longrightarrow>
           map_of m1 ''og:image'' = Some (MList [c1, c2])
           \<and> map_of (derived_meta s m1) ''og:image'' = Some (MList [c1, c2]))
     \<and> (\<forall>k. k \<in> set multi_valued \<longrightarrow> occurrences k (meta_elements s) \<noteq> [] \<longrightarrow>
           map_of m1 k = Some (MList (occurrences k (meta_elements s))))
     \<and> (\<forall>k. k \<notin> set multi_valued \<longrightarrow> k \<noteq> [] \<longrightarrow> occurrences k (meta_elements s) \<noteq> [] \<longrightarrow>
           map_of m1 k = Some (MStr (last (occurrences k (meta_elements s)))))"
proof -
  from meta_pass_ok [OF initial_list_or_absent, of sid cur lang "meta_elements s"]
  obtain m1 where
    p: "meta_pass (initial_meta sid cur lang) (meta_elements s) = Inr m1" and
    k: "\<And>k. map_of m1 k =
       (if k = [] \<or> occurrences k (meta_elements s) = [] then map_of (initial_meta sid cur lang) k
        else if k \<in> set multi_valued
          then Some (MList (prev_list (initial_meta sid cur lang) k @ occurrences k (meta_elements s)))
        else Some (MStr (last (occurrences k (meta_elements s)))))"
    by blast
  have prev: "prev_list (initial_meta sid cur lang) k = []" if "k \<in> set multi_valued" for k
    using that by (auto simp: prev_list_def initial_meta_def multi_valued_def)
  have e: "extract_meta_tags sid cur s = Inr (derived_meta s m1)"
    by (simp add: extract_meta_tags_def assms p)
  have img: "map_of m1 ''og:image'' = Some (MList [c1, c2])
      \<and> map_of (derived_meta s m1) ''og:image'' = Some (MList [c1, c2])"
    if "occurrences ''og:image'' (meta_elements s) = [c1, c2]" for c1 c2
    using that prev [of "''og:image''"]
    by (simp add: k derived_meta_og_image multi_valued_def)
  have multi: "map_of m1 k = Some (MList (occurrences k (meta_elements s)))"
    if "k \<in> set multi_valued" "occurrences k (meta_elements s) \<noteq> []" for k
  proof -
    have "k \<noteq> []" using that(1) by (auto simp: multi_valued_def)
    then show ?thesis using that prev [of k] by (simp add: k)
  qed
  have single: "map_of m1 k = Some (MStr (last (occurrences k (meta_elements s))))"
    if "k \<notin> set multi_valued" "k \<noteq> []" "occurrences k (meta_elements s) \<noteq> []" for k
    using that by (simp add: k)
  from p e img multi single show ?thesis by blast
qed

theorem extract_meta_tags_repeated_keys_witness:
  "\<exists>m1. meta_pass (initial_meta ''id'' ''http://a.com/'' None) two_images_page = Inr m1
     \<and> extract_meta_tags ''id'' ''http://a.com/'' two_images_soup = Inr (derived_meta two_images_soup m1)
     \<and> map_of m1 ''og:image'' = Some (MList [''a.png'', ''b.png''])
     \<and> map_of (derived_meta two_images_soup m1) ''og:image'' = Some (MList [''a.png'', ''b.png''])
     \<and> map_of m1 ''description'' = Some (MStr ''second'')"
proof -
  have l: "html_lang two_images_soup = Some None" and
    ts: "meta_elements two_images_soup = two_images_page"
    by (simp_all add: two_images_soup_def)
  have o1: "occurrences ''og:image'' two_images_page = [''a.png'', ''b.png'']"
    by (simp add: occurrences_def two_images_page_def tag_name_def tag_content_def)
  have o2: "occurrences ''description'' two_images_page = [''first'', ''second'']"
    by (simp add: occurrences_def two_images_page_def tag_name_def tag_content_def)
  have n: "''description'' \<notin> set multi_valued" "''description'' \<noteq> []"
    by (simp_all add: multi_valued_def)
  from extract_meta_tags_repeated_keys [OF l, of "''id''" "''http://a.com/''"]
  obtain m1 where
    a: "meta_pass (initial_meta ''id'' ''http://a.com/'' None) two_images_page = Inr m1" and
    b: "extract_meta_tags ''id'' ''http://a.com/'' two_images_soup = Inr (derived_meta two_images_soup m1)" and
    c: "\<And>c1 c2. occurrences ''og:image'' two_images_page = [c1, c2] \<Longrightarrow>
           map_of m1 ''og:image'' = Some (MList [c1, c2])
           \<and> map_of (derived_meta two_images_soup m1) ''og:image'' = Some (MList [c1, c2])" and
    d: "\<And>k. k \<notin> set multi_valued \<Longrightarrow> k \<noteq> [] \<Longrightarrow> occurrences k two_images_page \<noteq> [] \<Longrightarrow>
           map_of m1 k = Some (MStr (last (occurrences k two_images_page)))"
    unfolding ts by blast
  from c [OF o1] d [OF n] a b show ?thesis
    by (simp add: o2)
qed

section \<open>Properties of URL canonicalization\<close>

lemma before_notin: "c \<notin> set (before c s)"
  by (auto simp: before_def dest: set_takeWhileD)

lemma before_after_absent: "c \<notin> set s \<Longrightarrow> before c s = s \<and> after c s = []"
  by (induction s) (auto simp: before_def after_def)

lemma before_append_hit: "c \<notin> set xs \<Longrightarrow> before c (xs @ c # ys) = xs"
  by (induction xs) (auto simp: before_def)

lemma after_append_hit: "c \<notin> set xs \<Longrightarrow> after c (xs @ c # ys) = ys"
  by (induction xs) (auto simp: after_def)

lemma set_before: "set (before c s) \<subseteq> set s"
  by (auto simp: before_def dest: set_takeWhileD)

lemma set_after: "set (after c s) \<subseteq> set s"
  unfolding after_def by (meson set_drop_subset set_dropWhileD subset_iff subsetI)

lemma before_after_decomp: "c \<in> set s \<Longrightarrow> s = before c s @ c # after c s"
  by (induction s) (auto simp: before_def after_def)

lemma sublist_before: "sublist (before c s) s"
  unfolding before_def by (metis prefix_imp_sublist takeWhile_is_prefix)

lemma sublist_after: "sublist (after c s) s"
  unfolding after_def
  by (metis sublist_order.order_trans suffix_dropWhile suffix_drop suffix_imp_sublist)

lemma urlsplit_Inr:
  assumes "urlsplit lib J d = Inr r"
  shows "\<exists>u2 u3. split_scheme (remove_unsafe (rev (dropWhile c0_or_space (rev (dropWhile c0_or_space d))))) (clean J) = (scheme r, u2)
     \<and> (netloc r, u3) = (if take 2 u2 = ''//'' then splitnetloc u2 else ([], u2))
     \<and> (take 2 u2 = ''//'' \<longrightarrow> brackets_accepted lib (netloc r))
     \<and> checknetloc lib (netloc r)
     \<and> path r = before CHR ''?'' (before CHR ''#'' u3)
     \<and> query r = after CHR ''?'' (before CHR ''#'' u3)
     \<and> fragment r = after CHR ''#'' u3"
proof -
  define d1 where "d1 = remove_unsafe (rev (dropWhile c0_or_space (rev (dropWhile c0_or_space d))))"
  obtain sch u2 where ss: "split_scheme d1 (clean J) = (sch, u2)"
    by (cases "split_scheme d1 (clean J)")
  obtain nl u3 where nn: "(if take 2 u2 = ''//'' then splitnetloc u2 else ([], u2)) = (nl, u3)"
    by (cases "if take 2 u2 = ''//'' then splitnetloc u2 else ([], u2)")
  have b4: "(if c \<in> set x then (before c x, after c x) else (x, [])) = (before c x, after c x)" for c x
    by (simp add: before_after_absent)
  have ss': "split_scheme (remove_unsafe (rev (dropWhile c0_or_space (rev (dropWhile c0_or_space d)))))
      (remove_unsafe (dropWhile c0_or_space J)) = (sch, u2)"
    using ss by (simp add: d1_def clean_def)
  have eq: "urlsplit lib J d =
     (if take 2 u2 = ''//'' \<and> \<not> brackets_accepted lib nl then Inl ValueError
      else if checknetloc lib nl
        then Inr \<lparr>scheme = sch, netloc = nl, path = before CHR ''?'' (before CHR ''#'' u3),
               query = after CHR ''?'' (before CHR ''#'' u3), fragment = after CHR ''#'' u3\<rparr>
        else Inl ValueError)"
  proof (cases "take 2 u2 = ''//''")
    case True
    with nn have sn: "splitnetloc u2 = (nl, u3)" by simp
    show ?thesis
      by (simp add: urlsplit_def Let_def ss' True sn b4)
  next
    case False
    with nn have sn: "nl = []" "u3 = u2" by simp_all
    show ?thesis
      by (simp add: urlsplit_def Let_def ss' False sn b4)
  qed
  from assms show ?thesis
    unfolding eq d1_def [symmetric] ss
    using nn by (auto split: if_splits)
qed

lemma split_scheme_cases:
  assumes "split_scheme d u = (sch, u2)"
  shows "(sch = d \<and> u2 = u) \<or>
     (sch = map ascii_lower (before CHR '':'' u) \<and> u2 = after CHR '':'' u
      \<and> CHR '':'' \<in> set u \<and> before CHR '':'' u \<noteq> []
      \<and> list_all (\<lambda>c. c \<in> set scheme_chars) (before CHR '':'' u))"
  using assms by (auto simp: split_scheme_def Let_def split: if_splits)

lemma ascii_lower_fixed: "c \<notin> set ascii_uppercase \<Longrightarrow> ascii_lower c = c"
proof -
  assume a: "c \<notin> set ascii_uppercase"
  have "map_of (zip ascii_uppercase ascii_lowercase) c = None"
  proof (rule ccontr)
    assume "map_of (zip ascii_uppercase ascii_lowercase) c \<noteq> None"
    then obtain d where "map_of (zip ascii_uppercase ascii_lowercase) c = Some d" by blast
    then have "(c, d) \<in> set (zip ascii_uppercase ascii_lowercase)" by (rule map_of_SomeD)
    then have "c \<in> set ascii_uppercase" by (rule set_zip_leftD)
    with a show False by simp
  qed
  then show ?thesis by (simp add: ascii_lower_def)
qed

lemma lowercase_not_uppercase: "d \<in> set ascii_lowercase \<Longrightarrow> d \<notin> set ascii_uppercase"
  by (auto simp: ascii_lowercase_def ascii_uppercase_def)

lemma ascii_lower_not_upper: "ascii_lower c \<notin> set ascii_uppercase"
proof (cases "map_of (zip ascii_uppercase ascii_lowercase) c")
  case None
  then have "c \<notin> set ascii_uppercase"
    by (metis (no_types, lifting) length_map ascii_lowercase_def ascii_uppercase_def
        map_of_zip_is_None length_Cons list.size(3))
  with None show ?thesis by (simp add: ascii_lower_def)
next
  case (Some d)
  then have "(c, d) \<in> set (zip ascii_uppercase ascii_lowercase)" by (rule map_of_SomeD)
  then have "d \<in> set ascii_lowercase" by (rule set_zip_rightD)
  with Some show ?thesis by (simp add: ascii_lower_def lowercase_not_uppercase)
qed

lemma ascii_lower_idem: "ascii_lower (ascii_lower c) = ascii_lower c"
  by (simp add: ascii_lower_fixed ascii_lower_not_upper)

lemma ascii_lower_scheme_char:
  "c \<in> set scheme_chars \<Longrightarrow> ascii_lower c \<in> set scheme_chars"
proof (cases "map_of (zip ascii_uppercase ascii_lowercase) c")
  case None
  assume "c \<in> set scheme_chars"
  with None show ?thesis by (simp add: ascii_lower_def)
next
  case (Some d)
  then have "(c, d) \<in> set (zip ascii_uppercase ascii_lowercase)" by (rule map_of_SomeD)
  then have "d \<in> set ascii_lowercase" by (rule set_zip_rightD)
  with Some show ?thesis by (simp add: ascii_lower_def scheme_chars_def)
qed

lemma scheme_char_plain:
  "c \<in> set scheme_chars \<Longrightarrow>
     c \<noteq> CHR ''#'' \<and> c \<noteq> CHR ''?'' \<and> c \<noteq> CHR ''/'' \<and> c \<noteq> CHR '':'' \<and> c \<noteq> CHR '';''
     \<and> \<not> unsafe_byte c \<and> \<not> c0_or_space c"
  by (auto simp: scheme_chars_def ascii_lowercase_def ascii_uppercase_def unsafe_byte_def
      c0_or_space_def)

lemma last_segment_decomp:
  "take (length x - length (rev (takeWhile P (rev x)))) x @ rev (takeWhile P (rev x)) = x"
proof -
  have "rev x = takeWhile P (rev x) @ dropWhile P (rev x)" by simp
  then have "x = rev (dropWhile P (rev x)) @ rev (takeWhile P (rev x))"
    by (metis rev_append rev_rev_ident)
  moreover have "length (rev (dropWhile P (rev x))) = length x - length (rev (takeWhile P (rev x)))"
    by (metis add_diff_cancel_right' calculation length_append)
  ultimately show ?thesis
    by (metis append_eq_conv_conj)
qed

lemma splitparams_prefix:
  assumes "splitparams x = (p, q)" and "CHR '';'' \<in> set x"
  shows "prefix p x"
proof (cases "CHR ''/'' \<in> set x")
  case True
  define seg where "seg = rev (takeWhile (\<lambda>c. c \<noteq> CHR ''/'') (rev x))"
  define dir where "dir = take (length x - length seg) x"
  have x: "x = dir @ seg"
    unfolding dir_def seg_def
    using last_segment_decomp [of x "\<lambda>c. c \<noteq> CHR ''/''"] by simp
  show ?thesis
  proof (cases "CHR '';'' \<in> set seg")
    case s: True
    with assms True have "p = dir @ before CHR '';'' seg"
      by (simp add: splitparams_def Let_def seg_def [symmetric] dir_def [symmetric])
    moreover have "prefix (before CHR '';'' seg) seg"
      by (simp add: before_def takeWhile_is_prefix)
    ultimately show ?thesis using x by simp
  next
    case s: False
    with assms True have "p = x"
      by (simp add: splitparams_def Let_def seg_def [symmetric] dir_def [symmetric])
    then show ?thesis by simp
  qed
next
  case False
  with assms have "p = before CHR '';'' x"
    by (simp add: splitparams_def)
  then show ?thesis by (simp add: before_def takeWhile_is_prefix)
qed

lemma urlparse_Inr:
  assumes "urlparse lib J d = Inr P"
  shows "\<exists>r. urlsplit lib J d = Inr r \<and> scheme P = scheme r \<and> netloc P = netloc r
     \<and> query P = query r \<and> fragment P = fragment r \<and> prefix (path P) (path r)"
proof (cases "urlsplit lib J d")
  case (Inl e)
  with assms show ?thesis by (simp add: urlparse_def)
next
  case (Inr r)
  show ?thesis
  proof (cases "scheme r \<in> set uses_params \<and> CHR '';'' \<in> set (path r)")
    case True
    obtain p q where pq: "splitparams (path r) = (p, q)" by (cases "splitparams (path r)")
    with True have "prefix p (path r)" by (simp add: splitparams_prefix)
    with assms Inr True pq show ?thesis by (auto simp: urlparse_def)
  next
    case False
    with assms Inr show ?thesis by (auto simp: urlparse_def)
  qed
qed

lemma splitnetloc_netloc: "splitnetloc u = (nl, r) \<Longrightarrow> \<forall>c\<in>set nl. \<not> netloc_delim c"
  by (auto simp: splitnetloc_def dest: set_takeWhileD)

lemma sublist_drop2: "sublist (drop n xs) xs"
  by (simp add: suffix_drop suffix_imp_sublist)

lemma splitnetloc_sublist:
  assumes "splitnetloc u = (nl, r)"
  shows "sublist nl u \<and> sublist r u"
proof -
  have "sublist (takeWhile (\<lambda>c. \<not> netloc_delim c) (drop 2 u)) (drop 2 u)"
    by (simp add: prefix_imp_sublist takeWhile_is_prefix)
  moreover have "sublist (dropWhile (\<lambda>c. \<not> netloc_delim c) (drop 2 u)) (drop 2 u)"
    by (simp add: suffix_dropWhile suffix_imp_sublist)
  ultimately show ?thesis
    using assms sublist_drop2 [of 2 u]
    by (auto simp: splitnetloc_def intro: sublist_order.order_trans)
qed

text \<open>What every successful parse gives.\<close>

lemma urlparse_components:
  assumes "urlparse lib J [] = Inr P"
  shows "CHR ''#'' \<notin> set (scheme P) \<and> CHR ''#'' \<notin> set (netloc P) \<and> CHR ''#'' \<notin> set (path P)
     \<and> CHR ''#'' \<notin> set (query P)
     \<and> (scheme P = [] \<or> scheme P = map ascii_lower (before CHR '':'' (clean J)))
     \<and> map ascii_lower (scheme P) = scheme P
     \<and> sublist (netloc P) (clean J) \<and> sublist (path P) (clean J) \<and> sublist (query P) (clean J)"
proof -
  from urlparse_Inr [OF assms] obtain r where
    r: "urlsplit lib J [] = Inr r" and eqs: "scheme P = scheme r" "netloc P = netloc r"
      "query P = query r" and pre: "prefix (path P) (path r)"
    by blast
  from urlsplit_Inr [OF r] obtain u2 u3 where
    ss: "split_scheme [] (clean J) = (scheme r, u2)" and
    nn: "(netloc r, u3) = (if take 2 u2 = ''//'' then splitnetloc u2 else ([], u2))" and
    p: "path r = before CHR ''?'' (before CHR ''#'' u3)" and
    q: "query r = after CHR ''?'' (before CHR ''#'' u3)"
    by (auto simp: remove_unsafe_def)
  from split_scheme_cases [OF ss] have sch:
    "(scheme r = [] \<and> u2 = clean J) \<or>
     (scheme r = map ascii_lower (before CHR '':'' (clean J)) \<and> u2 = after CHR '':'' (clean J)
      \<and> list_all (\<lambda>c. c \<in> set scheme_chars) (before CHR '':'' (clean J)))"
    by blast
  have s0: "\<forall>c\<in>set (scheme r). c \<in> set scheme_chars"
    using sch ascii_lower_scheme_char by (auto simp: list_all_iff)
  have s1: "CHR ''#'' \<notin> set (scheme r)"
    using s0 scheme_char_plain by blast
  have s2: "map ascii_lower (scheme r) = scheme r"
    using sch by (auto simp: ascii_lower_idem)
  have u2: "sublist u2 (clean J)"
    using sch sublist_after by auto
  have nl: "CHR ''#'' \<notin> set (netloc r) \<and> sublist (netloc r) u2 \<and> sublist u3 u2"
  proof (cases "take 2 u2 = ''//''")
    case True
    with nn have sn: "splitnetloc u2 = (netloc r, u3)" by simp
    from splitnetloc_netloc [OF sn] splitnetloc_sublist [OF sn] show ?thesis
      by (auto simp: netloc_delim_def)
  next
    case False
    with nn show ?thesis by simp
  qed
  have b: "CHR ''#'' \<notin> set (before CHR ''#'' u3)" by (rule before_notin)
  have p1: "CHR ''#'' \<notin> set (path r)"
    using b set_before [of "CHR ''?''" "before CHR ''#'' u3"] by (auto simp: p)
  have q1: "CHR ''#'' \<notin> set (query r)"
    using b set_after [of "CHR ''?''" "before CHR ''#'' u3"] by (auto simp: q)
  have p2: "CHR ''#'' \<notin> set (path P)"
    using p1 pre set_mono_prefix by blast
  have u3: "sublist u3 (clean J)"
    using nl u2 sublist_order.order_trans by blast
  have bs: "sublist (before CHR ''#'' u3) (clean J)"
    using sublist_before u3 sublist_order.order_trans by blast
  have p3: "sublist (path r) (clean J)"
    unfolding p using sublist_before bs sublist_order.order_trans by blast
  have p4: "sublist (path P) (clean J)"
    using pre p3 prefix_imp_sublist sublist_order.order_trans by blast
  have q3: "sublist (query r) (clean J)"
    unfolding q using sublist_after bs sublist_order.order_trans by blast
  have n3: "sublist (netloc r) (clean J)"
    using nl u2 sublist_order.order_trans by blast
  from s1 s2 nl p2 q1 sch p4 q3 n3 show ?thesis
    by (auto simp: eqs)
qed

lemma normalize_url_Some:
  assumes "normalize_url lib base_url current_url u = Inr (Some n)"
  shows "\<exists>J P. absolute_url lib base_url current_url u = Inr J \<and> urlparse lib J [] = Inr P
     \<and> n = scheme P @ ''://'' @ netloc P @ path P @
           (if query P \<noteq> [] then ''?'' @ query P else [])"
  using assms
  by (auto simp: normalize_url_def split: if_splits sum.splits)

text \<open>
  Claim C4, as the code has it.  Every URL that \<open>normalize_url\<close> accepts is first made
  absolute (\<open>J\<close>: the URL itself when it starts with \<open>http://\<close> or \<open>https://\<close>,
  otherwise its \<open>urljoin\<close> with the base) and parsed (\<open>P\<close>); the canonical form is
  scheme, \<open>://\<close>, network location, path and, when it is not empty, \<open>?\<close> and the query.
  The canonical form contains no \<open>#\<close>: the fragment is gone.  Its scheme is the scheme
  as written in lower case (or empty when the URL has none), and lower-casing it again
  changes nothing.  The network location, the path and the query are contiguous pieces of
  the absolute URL as \<open>urlparse\<close> reads it (without tab, carriage return and line feed,
  and without leading control characters and spaces): they are kept as written, the
  host included.
\<close>

theorem normalize_url_canonical_form:
  assumes "normalize_url lib base_url current_url u = Inr (Some n)"
  shows "\<exists>J P. absolute_url lib base_url current_url u = Inr J \<and> urlparse lib J [] = Inr P
     \<and> n = scheme P @ ''://'' @ netloc P @ path P @
           (if query P \<noteq> [] then ''?'' @ query P else [])
     \<and> CHR ''#'' \<notin> set n
     \<and> (scheme P = [] \<or> scheme P = map ascii_lower (before CHR '':'' (clean J)))
     \<and> map ascii_lower (scheme P) = scheme P
     \<and> sublist (netloc P) (clean J) \<and> sublist (path P) (clean J)
     \<and> sublist (query P) (clean J)"
proof -
  from normalize_url_Some [OF assms] obtain J P where
    J: "absolute_url lib base_url current_url u = Inr J" and P: "urlparse lib J [] = Inr P" and
    n: "n = scheme P @ ''://'' @ netloc P @ path P @
           (if query P \<noteq> [] then ''?'' @ query P else [])"
    by blast
  note c = urlparse_components [OF P]
  from c have "CHR ''#'' \<notin> set n"
    by (simp add: n)
  with J P n c show ?thesis by blast
qed

theorem normalize_url_canonical_form_witness:
  "\<exists>J P. absolute_url plain_lib None ''http://a.com/'' ''HTTP://A.com/X?Q=1#F'' = Inr J
     \<and> urlparse plain_lib J [] = Inr P
     \<and> ''http://A.com/X?Q=1'' = scheme P @ ''://'' @ netloc P @ path P @
           (if query P \<noteq> [] then ''?'' @ query P else [])
     \<and> CHR ''#'' \<notin> set ''http://A.com/X?Q=1''
     \<and> (scheme P = [] \<or> scheme P = map ascii_lower (before CHR '':'' (clean J)))
     \<and> map ascii_lower (scheme P) = scheme P
     \<and> sublist (netloc P) (clean J) \<and> sublist (path P) (clean J)
     \<and> sublist (query P) (clean J)"
proof -
  have "normalize_url plain_lib None ''http://a.com/'' ''HTTP://A.com/X?Q=1#F''
      = Inr (Some ''http://A.com/X?Q=1'')"
    by code_simp
  then show ?thesis by (rule normalize_url_canonical_form)
qed

text \<open>
  Claim C4 as the specification words it fails: the host is not lower-cased.  The
  canonical form of \<open>http://A.com/x\<close> is \<open>http://A.com/x\<close>, not
  \<open>http://a.com/x\<close>.
\<close>

theorem normalize_url_keeps_host_case:
  "normalize_url plain_lib None ''http://a.com/'' ''http://A.com/x'' = Inr (Some ''http://A.com/x'')
   \<and> map ascii_lower ''A.com'' = ''a.com''
   \<and> ''http://A.com/x'' \<noteq> ''http://a.com/x''"
  by code_simp

lemma splitparams_slash:
  assumes "CHR ''/'' \<notin> set seg"
  shows "splitparams (d @ CHR ''/'' # seg) =
     (if CHR '';'' \<in> set seg then (d @ CHR ''/'' # before CHR '';'' seg, after CHR '';'' seg)
      else (d @ CHR ''/'' # seg, []))"
proof -
  have tw: "takeWhile (\<lambda>c. c \<noteq> CHR ''/'') (rev seg @ CHR ''/'' # rev d) = rev seg"
    using assms by (subst takeWhile_append2) auto
  show ?thesis
    by (simp add: splitparams_def Let_def tw)
qed

lemma splitparams_settled:
  assumes "x = [] \<or> hd x = CHR ''/''" and "CHR '';'' \<in> set x" and "splitparams x = (p, q)"
  shows "settled_path p"
proof -
  from assms have "CHR ''/'' \<in> set x" by (cases x) auto
  then obtain d seg where x: "x = d @ CHR ''/'' # seg" and seg: "CHR ''/'' \<notin> set seg"
    by (meson split_list_last)
  have hd: "hd (d @ CHR ''/'' # ys) = CHR ''/''" for ys
    using assms(1) x by (cases d) auto
  show ?thesis
  proof (cases "CHR '';'' \<in> set seg")
    case True
    with assms(3) have p: "p = d @ CHR ''/'' # before CHR '';'' seg"
      by (simp add: x splitparams_slash [OF seg])
    have b: "CHR ''/'' \<notin> set (before CHR '';'' seg)" "CHR '';'' \<notin> set (before CHR '';'' seg)"
      using seg set_before [of "CHR '';''" seg] before_notin [of "CHR '';''" seg] by auto
    show ?thesis
      unfolding settled_path_def p
      by (simp add: hd splitparams_slash [OF b(1)] b(2))
  next
    case False
    with assms(3) have p: "p = x"
      by (simp add: x splitparams_slash [OF seg])
    show ?thesis
      unfolding settled_path_def p x
      using False by (simp add: hd splitparams_slash [OF seg])
  qed
qed

lemma http_scheme_chars:
  "CHR ''h'' \<in> set scheme_chars" "CHR ''t'' \<in> set scheme_chars"
  "CHR ''p'' \<in> set scheme_chars" "CHR ''s'' \<in> set scheme_chars"
  "CHR ''h'' \<in> set ascii_lowercase"
  by code_simp+

lemma http_lower:
  "ascii_lower CHR ''h'' = CHR ''h''" "ascii_lower CHR ''t'' = CHR ''t''"
  "ascii_lower CHR ''p'' = CHR ''p''" "ascii_lower CHR ''s'' = CHR ''s''"
  by code_simp+

lemma http_clean_chars:
  "\<not> c0_or_space CHR ''h''"
  "\<not> unsafe_byte CHR ''h''" "\<not> unsafe_byte CHR ''t''" "\<not> unsafe_byte CHR ''p''"
  "\<not> unsafe_byte CHR ''s''" "\<not> unsafe_byte CHR '':''" "\<not> unsafe_byte CHR ''/''"
  "\<not> unsafe_byte CHR ''?''"
  by code_simp+

lemma clean_http:
  assumes "s = ''http'' \<or> s = ''https''"
  shows "clean (s @ ''://'' @ r) = s @ ''://'' @ remove_unsafe r"
  using assms by (auto simp: clean_def remove_unsafe_def http_clean_chars)

lemma split_scheme_http:
  assumes "s = ''http'' \<or> s = ''https''"
  shows "split_scheme d (s @ ''://'' @ r) = (s, ''//'' @ r)"
  using assms
  by (auto simp: split_scheme_def before_def after_def Let_def http_scheme_chars http_lower)

lemma remove_unsafe_id: "(\<forall>c\<in>set xs. \<not> unsafe_byte c) \<Longrightarrow> remove_unsafe xs = xs"
  by (simp add: remove_unsafe_def)

lemma clean_no_unsafe: "\<forall>c\<in>set (clean J). \<not> unsafe_byte c"
  by (simp add: clean_def remove_unsafe_def)

lemma urlsplit_http:
  assumes s: "s = ''http'' \<or> s = ''https''" and J: "J = s @ ''://'' @ r"
  shows "urlsplit lib J [] =
     (if \<not> brackets_accepted lib (takeWhile (\<lambda>c. \<not> netloc_delim c) (remove_unsafe r))
      then Inl ValueError
      else if checknetloc lib (takeWhile (\<lambda>c. \<not> netloc_delim c) (remove_unsafe r))
      then Inr \<lparr>scheme = s, netloc = takeWhile (\<lambda>c. \<not> netloc_delim c) (remove_unsafe r),
             path = before CHR ''?'' (before CHR ''#'' (dropWhile (\<lambda>c. \<not> netloc_delim c) (remove_unsafe r))),
             query = after CHR ''?'' (before CHR ''#'' (dropWhile (\<lambda>c. \<not> netloc_delim c) (remove_unsafe r))),
             fragment = after CHR ''#'' (dropWhile (\<lambda>c. \<not> netloc_delim c) (remove_unsafe r))\<rparr>
      else Inl ValueError)"
proof -
  have c: "remove_unsafe (dropWhile c0_or_space (s @ ''://'' @ r)) = s @ ''://'' @ remove_unsafe r"
    using clean_http [OF s] by (simp add: clean_def)
  have d: "remove_unsafe (rev (dropWhile c0_or_space (rev (dropWhile c0_or_space [])))) = []"
    by (simp add: remove_unsafe_def)
  have b4: "(if c \<in> set x then (before c x, after c x) else (x, [])) = (before c x, after c x)" for c x
    by (simp add: before_after_absent)
  have t: "take 2 (''//'' @ x) = ''//''" "drop 2 (''//'' @ x) = x" for x :: string
    by simp_all
  show ?thesis
    unfolding J urlsplit_def c d split_scheme_http [OF s] Let_def prod.case t splitnetloc_def b4
    by simp
qed

lemma path_after_netloc:
  "before CHR ''?'' (before CHR ''#'' (dropWhile (\<lambda>c. \<not> netloc_delim c) x)) = [] \<or>
   hd (before CHR ''?'' (before CHR ''#'' (dropWhile (\<lambda>c. \<not> netloc_delim c) x))) = CHR ''/''"
proof (cases "dropWhile (\<lambda>c. \<not> netloc_delim c) x")
  case Nil
  show ?thesis unfolding Nil by (simp add: before_def)
next
  case (Cons a as)
  then have "netloc_delim a"
    by (metis hd_dropWhile list.sel(1) list.distinct(1))
  then show ?thesis
    unfolding Cons by (auto simp: netloc_delim_def before_def)
qed

lemma http_uses_params: "''http'' \<in> set uses_params" "''https'' \<in> set uses_params"
  by (simp_all add: uses_params_def)

lemma urlparse_http:
  assumes s: "s = ''http'' \<or> s = ''https''" and J: "J = s @ ''://'' @ r"
    and P: "urlparse lib J [] = Inr P"
  shows "scheme P = s \<and> (\<forall>c\<in>set (netloc P). \<not> netloc_delim c)
     \<and> brackets_accepted lib (netloc P) \<and> checknetloc lib (netloc P)
     \<and> settled_path (path P) \<and> CHR ''?'' \<notin> set (path P)"
proof -
  define nl where "nl = takeWhile (\<lambda>c. \<not> netloc_delim c) (remove_unsafe r)"
  define p0 where "p0 = before CHR ''?'' (before CHR ''#'' (dropWhile (\<lambda>c. \<not> netloc_delim c) (remove_unsafe r)))"
  define q0 where "q0 = after CHR ''?'' (before CHR ''#'' (dropWhile (\<lambda>c. \<not> netloc_delim c) (remove_unsafe r)))"
  define f0 where "f0 = after CHR ''#'' (dropWhile (\<lambda>c. \<not> netloc_delim c) (remove_unsafe r))"
  note sp = urlsplit_http [OF s J, of lib, folded nl_def p0_def q0_def f0_def]
  have ok: "brackets_accepted lib nl" "checknetloc lib nl"
    using P by (auto simp: urlparse_def sp split: if_splits)
  have r: "urlsplit lib J [] =
      Inr \<lparr>scheme = s, netloc = nl, path = p0, query = q0, fragment = f0\<rparr>"
    using ok by (simp add: sp)
  have p0: "p0 = [] \<or> hd p0 = CHR ''/''"
    unfolding p0_def by (rule path_after_netloc)
  have q: "CHR ''?'' \<notin> set p0"
    unfolding p0_def by (rule before_notin)
  have up: "s \<in> set uses_params"
    using s http_uses_params by auto
  have nld: "\<forall>c\<in>set nl. \<not> netloc_delim c"
    unfolding nl_def by (auto dest: set_takeWhileD)
  show ?thesis
  proof (cases "CHR '';'' \<in> set p0")
    case True
    obtain p q where pq: "splitparams p0 = (p, q)" by (cases "splitparams p0")
    have st: "settled_path p" using p0 True pq by (rule splitparams_settled)
    have "prefix p p0" using pq True by (rule splitparams_prefix)
    then have "CHR ''?'' \<notin> set p" using q set_mono_prefix by blast
    moreover have "P = \<lparr>scheme = s, netloc = nl, path = p, query = q0, fragment = f0, params = q\<rparr>"
      using P by (simp add: urlparse_def r True up pq)
    ultimately show ?thesis using st ok nld by simp
  next
    case False
    have "P = \<lparr>scheme = s, netloc = nl, path = p0, query = q0, fragment = f0, params = []\<rparr>"
      using P by (simp add: urlparse_def r False)
    then show ?thesis using p0 False q ok nld by (simp add: settled_path_def)
  qed
qed

lemma takeWhile_stop:
  assumes "\<forall>x\<in>set xs. P x" and "ys = [] \<or> \<not> P (hd ys)"
  shows "takeWhile P (xs @ ys) = xs \<and> dropWhile P (xs @ ys) = ys"
  using assms by (cases ys) (auto simp: takeWhile_append2 dropWhile_append2)

lemma urlparse_canonical:
  assumes s: "s = ''http'' \<or> s = ''https''"
    and nld: "\<forall>c\<in>set nl. \<not> netloc_delim c"
    and ok: "brackets_accepted lib nl" "checknetloc lib nl"
    and sp: "settled_path p" and qp: "CHR ''?'' \<notin> set p" and hp: "CHR ''#'' \<notin> set p"
    and hq: "CHR ''#'' \<notin> set q"
    and us: "\<forall>c\<in>set nl \<union> set p \<union> set q. \<not> unsafe_byte c"
    and n: "n = s @ ''://'' @ (nl @ p @ (if q \<noteq> [] then ''?'' @ q else []))"
  shows "urlparse lib n [] =
     Inr \<lparr>scheme = s, netloc = nl, path = p, query = q, fragment = [], params = []\<rparr>"
proof -
  define qq where "qq = (if q \<noteq> [] then ''?'' @ q else [])"
  define r where "r = nl @ p @ qq"
  have n': "n = s @ ''://'' @ r" by (simp add: n r_def qq_def)
  have "\<forall>c\<in>set r. \<not> unsafe_byte c"
    using us by (auto simp: r_def qq_def http_clean_chars)
  then have ru: "remove_unsafe r = r" by (rule remove_unsafe_id)
  have "p @ qq = [] \<or> netloc_delim (hd (p @ qq))"
    using sp by (cases p) (auto simp: settled_path_def qq_def netloc_delim_def)
  then have "p @ qq = [] \<or> \<not> \<not> netloc_delim (hd (p @ qq))" by simp
  with nld have tw: "takeWhile (\<lambda>c. \<not> netloc_delim c) r = nl"
    "dropWhile (\<lambda>c. \<not> netloc_delim c) r = p @ qq"
    unfolding r_def using takeWhile_stop [of nl "\<lambda>c. \<not> netloc_delim c" "p @ qq"] by auto
  have "CHR ''#'' \<notin> set (p @ qq)"
    using hp hq by (simp add: qq_def)
  then have fr: "before CHR ''#'' (p @ qq) = p @ qq" "after CHR ''#'' (p @ qq) = []"
    using before_after_absent by auto
  have pq: "before CHR ''?'' (p @ qq) = p \<and> after CHR ''?'' (p @ qq) = q"
  proof (cases "q = []")
    case True
    then show ?thesis using qp before_after_absent [of "CHR ''?''" p] by (simp add: qq_def)
  next
    case False
    then have "p @ qq = p @ CHR ''?'' # q" by (simp add: qq_def)
    then show ?thesis using qp by (simp add: before_append_hit after_append_hit)
  qed
  have r: "urlsplit lib n [] = Inr \<lparr>scheme = s, netloc = nl, path = p, query = q, fragment = []\<rparr>"
    using ok by (simp add: urlsplit_http [OF s n'] ru tw fr pq)
  have up: "s \<in> set uses_params"
    using s http_uses_params by auto
  show ?thesis
  proof (cases "CHR '';'' \<in> set p")
    case True
    with sp have "splitparams p = (p, [])" by (simp add: settled_path_def)
    then show ?thesis by (simp add: urlparse_def r True up)
  next
    case False
    then show ?thesis by (simp add: urlparse_def r)
  qed
qed

lemma startswith_http:
  assumes "startswith J [''http://'', ''https://'']"
  shows "\<exists>s r. (s = ''http'' \<or> s = ''https'') \<and> J = s @ ''://'' @ r"
proof -
  from assms have "prefix ''http://'' J \<or> prefix ''https://'' J"
    by (simp add: startswith_def)
  then show ?thesis
  proof
    assume "prefix ''http://'' J"
    then obtain r where "J = ''http://'' @ r" by (auto simp: prefix_def)
    then have "J = ''http'' @ ''://'' @ r" by simp
    then show ?thesis by blast
  next
    assume "prefix ''https://'' J"
    then obtain r where "J = ''https://'' @ r" by (auto simp: prefix_def)
    then have "J = ''https'' @ ''://'' @ r" by simp
    then show ?thesis by blast
  qed
qed

lemma normalize_url_accepts_canonical:
  assumes s: "s = ''http'' \<or> s = ''https''"
    and n: "n = s @ ''://'' @ r"
    and P: "urlparse lib n [] = Inr P"
  shows "normalize_url lib base_url current_url n =
     Inr (Some (scheme P @ ''://'' @ netloc P @ path P @
       (if query P \<noteq> [] then ''?'' @ query P else [])))"
proof -
  have sw: "startswith n [''http://'', ''https://'']"
    using s by (auto simp: n startswith_def)
  have ns: "\<not> startswith n [''javascript:'', ''mailto:'', ''tel:'', ''#'', ''data:'']" "n \<noteq> []"
    using s by (auto simp: n startswith_def)
  have "absolute_url lib base_url current_url n = Inr n"
    using sw by (simp add: absolute_url_def)
  then show ?thesis
    using ns P by (simp add: normalize_url_def)
qed

lemma normalize_url_idem_http:
  assumes J: "absolute_url lib base_url current_url u = Inr J"
    and h: "startswith J [''http://'', ''https://'']"
    and n: "normalize_url lib base_url current_url u = Inr (Some n)"
  shows "normalize_url lib base_url current_url n = Inr (Some n)"
proof -
  from normalize_url_Some [OF n] J obtain P where
    P: "urlparse lib J [] = Inr P" and
    nP: "n = scheme P @ ''://'' @ netloc P @ path P @
           (if query P \<noteq> [] then ''?'' @ query P else [])"
    by auto
  from startswith_http [OF h] obtain s r where
    s: "s = ''http'' \<or> s = ''https''" and Js: "J = s @ ''://'' @ r"
    by blast
  note f = urlparse_http [OF s Js P]
  note c = urlparse_components [OF P]
  have us: "\<forall>c\<in>set (netloc P) \<union> set (path P) \<union> set (query P). \<not> unsafe_byte c"
    using c clean_no_unsafe [of J] set_mono_sublist by blast
  have n': "n = s @ ''://'' @ (netloc P @ path P @
      (if query P \<noteq> [] then ''?'' @ query P else []))"
    using f by (simp add: nP)
  have re: "urlparse lib n [] = Inr \<lparr>scheme = s, netloc = netloc P, path = path P,
      query = query P, fragment = [], params = []\<rparr>"
    using s _ _ _ _ _ _ _ us n'
    by (rule urlparse_canonical) (use f c in simp_all)
  show ?thesis
    using normalize_url_accepts_canonical [OF s n' re, of base_url current_url]
    by (simp add: n')
qed

lemma normalize_url_example_plain:
  "normalize_url lib base_url current_url ''http://a.com/x'' = Inr (Some ''http://a.com/x'')"
proof -
  have s: "''http'' = ''http'' \<or> ''http'' = ''https''" by simp
  have n: "''http://a.com/x'' = ''http'' @ ''://'' @ (''a.com'' @ ''/x'' @ (if [] \<noteq> ([] :: string) then ''?'' @ [] else []))"
    by simp
  have re: "urlparse lib ''http://a.com/x'' [] = Inr \<lparr>scheme = ''http'', netloc = ''a.com'',
      path = ''/x'', query = [], fragment = [], params = []\<rparr>"
    using s _ _ _ _ _ _ _ _ n
    by (rule urlparse_canonical)
      (simp_all add: netloc_delim_def brackets_accepted_def checknetloc_def settled_path_def
        unsafe_byte_def)
  have n2: "''http://a.com/x'' = ''http'' @ ''://'' @ ''a.com/x''" by simp
  show ?thesis
    using normalize_url_accepts_canonical [OF s n2 re, of base_url current_url] by simp
qed

lemma normalize_url_example_fragment:
  "normalize_url lib base_url current_url ''http://a.com/x#frag'' = Inr (Some ''http://a.com/x'')"
proof -
  have s: "''http'' = ''http'' \<or> ''http'' = ''https''" by simp
  have n2: "''http://a.com/x#frag'' = ''http'' @ ''://'' @ ''a.com/x#frag''" by simp
  have sp: "urlsplit lib ''http://a.com/x#frag'' [] = Inr \<lparr>scheme = ''http'', netloc = ''a.com'',
      path = ''/x'', query = [], fragment = ''frag''\<rparr>"
    by (simp add: urlsplit_http [OF s n2] remove_unsafe_def unsafe_byte_def netloc_delim_def
        brackets_accepted_def checknetloc_def before_def after_def)
  have re: "urlparse lib ''http://a.com/x#frag'' [] = Inr \<lparr>scheme = ''http'', netloc = ''a.com'',
      path = ''/x'', query = [], fragment = ''frag'', params = []\<rparr>"
    by (simp add: urlparse_def sp)
  show ?thesis
    using normalize_url_accepts_canonical [OF s n2 re, of base_url current_url] by simp
qed

text \<open>
  Canonicalization is idempotent on every accepted URL whose absolute form starts with
  \<open>http://\<close> or \<open>https://\<close>: the canonical form of such a URL is accepted again and
  is its own canonical form.  The URLs
  \<open>http://a.com/x#frag\<close> and \<open>http://a.com/x\<close> have the same canonical form,
  \<open>http://a.com/x\<close>, whatever the base and the library parameters.
\<close>

theorem normalize_url_idempotent:
  "(\<forall>u J n. absolute_url lib base_url current_url u = Inr J \<longrightarrow>
       startswith J [''http://'', ''https://''] \<longrightarrow>
       normalize_url lib base_url current_url u = Inr (Some n) \<longrightarrow>
       normalize_url lib base_url current_url n = Inr (Some n))
   \<and> normalize_url lib base_url current_url ''http://a.com/x#frag'' = Inr (Some ''http://a.com/x'')
   \<and> normalize_url lib base_url current_url ''http://a.com/x'' = Inr (Some ''http://a.com/x'')"
  using normalize_url_idem_http normalize_url_example_plain normalize_url_example_fragment
  by blast

theorem normalize_url_idempotent_witness:
  "absolute_url plain_lib None ''http://a.com/b/c'' ''../x?q#f'' = Inr ''http://a.com/x?q#f''
   \<and> startswith ''http://a.com/x?q#f'' [''http://'', ''https://'']
   \<and> normalize_url plain_lib None ''http://a.com/b/c'' ''../x?q#f'' = Inr (Some ''http://a.com/x?q'')
   \<and> normalize_url plain_lib None ''http://a.com/b/c'' ''http://a.com/x?q'' = Inr (Some ''http://a.com/x?q'')"
proof -
  have a: "absolute_url plain_lib None ''http://a.com/b/c'' ''../x?q#f'' = Inr ''http://a.com/x?q#f''"
    by code_simp
  have b: "startswith ''http://a.com/x?q#f'' [''http://'', ''https://'']"
    by code_simp
  have c: "normalize_url plain_lib None ''http://a.com/b/c'' ''../x?q#f'' = Inr (Some ''http://a.com/x?q'')"
    by code_simp
  from normalize_url_idempotent [of plain_lib None "''http://a.com/b/c''"] a b c
  have "normalize_url plain_lib None ''http://a.com/b/c'' ''http://a.com/x?q'' = Inr (Some ''http://a.com/x?q'')"
    by blast
  with a b c show ?thesis by blast
qed

text \<open>
  Claim C5 fails on the code.  The guard of \<open>normalize_url\<close> rejects the pseudo-scheme
  in \<open>javascript:void(0)\<close>, but its test is case-sensitive and lets \<open>JavaScript:void(0)\<close>
  through; \<open>urlparse\<close> lower-cases the scheme, the canonical form is
  \<open>javascript://void(0)\<close>, and canonicalizing that again is caught by the guard: the
  canonical form of an accepted URL is not accepted.
\<close>

theorem normalize_url_not_idempotent:
  "normalize_url plain_lib None ''http://a.com/'' ''javascript:void(0)'' = Inr None
   \<and> normalize_url plain_lib None ''http://a.com/'' ''JavaScript:void(0)'' = Inr (Some ''javascript://void(0)'')
   \<and> normalize_url plain_lib None ''http://a.com/'' ''javascript://void(0)'' = Inr None"
  by code_simp

section \<open>Properties of link extraction, scraping and the crawl loop\<close>

lemma urlsplit_error: "urlsplit lib u d = Inl e \<Longrightarrow> e = ValueError"
  by (auto simp: urlsplit_def Let_def split: prod.splits if_splits)

lemma urlparse_error: "urlparse lib u d = Inl e \<Longrightarrow> e = ValueError"
  by (auto simp: urlparse_def urlsplit_error split: sum.splits prod.splits if_splits)

lemma urljoin_error: "urljoin lib b u = Inl e \<Longrightarrow> e = ValueError"
  by (auto simp: urljoin_def Let_def urlparse_error split: sum.splits if_splits)

lemma normalize_url_error: "normalize_url lib b c u = Inl e \<Longrightarrow> e = ValueError"
  by (auto simp: normalize_url_def absolute_url_def urljoin_error split: sum.splits if_splits)

lemma add_links_char:
  "add_links lib base_url cur fp hs A =
     (if \<exists>h\<in>set hs. \<exists>e. normalize_url lib base_url cur h = Inl e then Inl ValueError
      else Inr (A \<union> {u. \<exists>h\<in>set hs. kept_link lib base_url cur fp h u}))"
proof (induction hs arbitrary: A)
  case Nil
  then show ?case by simp
next
  case (Cons h hs)
  show ?case
  proof (cases "normalize_url lib base_url cur h")
    case (Inl e)
    then have "e = ValueError" by (rule normalize_url_error)
    with Inl show ?thesis by auto
  next
    case (Inr r)
    show ?thesis
    proof (cases r)
      case None
      with Inr show ?thesis
        by (simp add: Cons.IH kept_link_def)
    next
      case (Some u)
      with Inr show ?thesis
        by (auto simp: Cons.IH kept_link_def)
    qed
  qed
qed

lemma add_links_finite:
  assumes "add_links lib base_url cur fp hs A = Inr B" and "finite A"
  shows "finite B"
  using assms
proof (induction hs arbitrary: A)
  case Nil
  then show ?case by simp
next
  case (Cons h hs)
  then show ?case
    by (auto split: sum.splits option.splits if_splits)
qed

lemma Map_links_cases:
  "result_links (Map lib base_url ia fp b) = [] \<or>
   (\<exists>page links1. b = Inr page
      \<and> add_links lib base_url (page_url page) fp (page_hrefs ia page) {} = Inr links1
      \<and> result_links (Map lib base_url ia fp b) = sorted_list_of_set links1)"
  by (auto simp: Map_def map_failed_def split: option.splits sum.splits if_splits)

lemma Map_links_sorted: "sorted (result_links (Map lib base_url ia fp b))"
  using Map_links_cases [of lib base_url ia fp b] by auto

lemma Map_links_distinct: "distinct (result_links (Map lib base_url ia fp b))"
  using Map_links_cases [of lib base_url ia fp b] by auto

lemma Map_links_normalized:
  assumes "l \<in> set (result_links (Map lib base_url ia fp b))"
  shows "\<exists>page h. b = Inr page \<and> h \<in> set (page_hrefs ia page)
     \<and> normalize_url lib base_url (page_url page) h = Inr (Some l)"
proof -
  from Map_links_cases [of lib base_url ia fp b] assms obtain page links1 where
    b: "b = Inr page" and
    a: "add_links lib base_url (page_url page) fp (page_hrefs ia page) {} = Inr links1" and
    r: "result_links (Map lib base_url ia fp b) = sorted_list_of_set links1"
    by auto
  have "finite links1" using a by (rule add_links_finite) simp
  with assms r have "l \<in> links1" by simp
  with a have "\<exists>h\<in>set (page_hrefs ia page). kept_link lib base_url (page_url page) fp h l"
    by (auto simp: add_links_char split: if_splits)
  with b show ?thesis by (auto simp: kept_link_def)
qed

lemma Map_links_order:
  assumes "page_url page = page_url page'"
    and "set (page_hrefs ia page) = set (page_hrefs ia page')"
  shows "result_links (Map lib base_url ia fp (Inr page)) =
     result_links (Map lib base_url ia fp (Inr page'))"
proof -
  have eq: "add_links lib base_url (page_url page) fp (page_hrefs ia page) {} =
      add_links lib base_url (page_url page') fp (page_hrefs ia page') {}"
    by (simp add: add_links_char assms)
  show ?thesis
    by (cases "validate_base_url lib base_url") (simp_all add: Map_def eq)
qed

lemma link_loop_appends:
  assumes "link_loop lib follow bd seen0 depth ls q = Inr q'"
  shows "\<exists>new. q' = q @ new \<and>
     (\<forall>e\<in>set new. snd e = depth + 1 \<and> fst e \<notin> seen0 \<and> fst e \<in> set ls)"
  using assms
proof (induction ls arbitrary: q)
  case Nil
  then show ?case by simp
next
  case (Cons l ls)
  from Cons.prems obtain parsed where p: "urlparse lib l [] = Inr parsed"
    by (cases "urlparse lib l []") auto
  consider (skip) "link_loop lib follow bd seen0 depth ls q = Inr q'"
    | (add) "l \<notin> seen0" "link_loop lib follow bd seen0 depth ls (q @ [(l, depth + 1)]) = Inr q'"
    using Cons.prems p by (auto split: if_splits)
  then show ?case
  proof cases
    case skip
    from Cons.IH [OF skip] show ?thesis by auto
  next
    case add
    from Cons.IH [OF add(2)] obtain new where
      "q' = (q @ [(l, depth + 1)]) @ new"
      "\<forall>e\<in>set new. snd e = depth + 1 \<and> fst e \<notin> seen0 \<and> fst e \<in> set ls"
      by blast
    with add(1) have "q' = q @ ((l, depth + 1) # new) \<and>
      (\<forall>e\<in>set ((l, depth + 1) # new). snd e = depth + 1 \<and> fst e \<notin> seen0 \<and> fst e \<in> set (l # ls))"
      by auto
    then show ?thesis by blast
  qed
qed

text \<open>What one iteration does to the queue, the visited set and the logs.\<close>

lemma crawl_iter_cases:
  assumes "queue st = (u, d) # rest" and "crawl_iter lib W P bd st = Inr st'"
  shows "(u \<in> seen st \<or> d > max_depth P) \<and> queue st' = rest \<and> seen st' = seen st
       \<and> popped st' = popped st @ [(u, d)] \<and> scraped st' = scraped st
     \<or> u \<notin> seen st \<and> d \<le> max_depth P \<and> seen st' = insert u (seen st)
       \<and> popped st' = popped st @ [(u, d)] \<and> scraped st' = scraped st @ [(u, d)]
       \<and> (\<exists>new. queue st' = rest @ new \<and> (d < max_depth P \<or> new = [])
             \<and> (\<forall>e\<in>set new. snd e = d + 1 \<and> fst e \<notin> seen st'))"
proof (cases "u \<in> seen st \<or> d > max_depth P")
  case True
  with assms show ?thesis by (auto simp: crawl_iter_def)
next
  case False
  define k where "k = length (scraped st)"
  define result where "result = scrape lib (visit_of W k u (map_of (actions_per_url P) u)) u
     (output_formats P) (map_of (actions_per_url P) u)"
  define st1 where "st1 = st\<lparr>queue := rest, seen := insert u (seen st),
     results := AList.update u result (results st), popped := popped st @ [(u, d)],
     scraped := scraped st @ [(u, d)]\<rparr>"
  have it: "crawl_iter lib W P bd st =
     (if rate_limit P < 0 then Inl ValueError
      else if d < max_depth P
      then (case link_loop lib (follow_subdomains P) bd (seen st1) d
                   (page_links lib W k u result) rest of
              Inl e \<Rightarrow> Inl e | Inr q \<Rightarrow> Inr (st1\<lparr>queue := q\<rparr>))
      else Inr st1)"
    using False assms(1)
    by (auto simp: crawl_iter_def Let_def k_def result_def st1_def split: sum.splits)
  show ?thesis
  proof (cases "d < max_depth P")
    case True
    with assms(2) it obtain q where
      ll: "link_loop lib (follow_subdomains P) bd (seen st1) d (page_links lib W k u result) rest = Inr q"
      and st': "st' = st1\<lparr>queue := q\<rparr>"
      by (auto split: sum.splits if_splits)
    from link_loop_appends [OF ll] obtain new where
      "q = rest @ new" "\<forall>e\<in>set new. snd e = d + 1 \<and> fst e \<notin> seen st1"
      by blast
    with False True st' show ?thesis
      by (auto simp: st1_def)
  next
    case nd: False
    with assms(2) it have "st' = st1" by (simp split: if_splits)
    with False nd show ?thesis by (auto simp: st1_def)
  qed
qed

lemma crawl_iter_decreases:
  assumes "queue st \<noteq> []" and "crawl_iter lib W P bd st = Inr st'"
  shows "(mset (map (levels_left P) (queue st')), mset (map (levels_left P) (queue st)))
     \<in> mult {(a, b). a < b}"
proof -
  from assms(1) obtain u d rest where q: "queue st = (u, d) # rest"
    by (cases "queue st") auto
  from crawl_iter_cases [OF q assms(2)] obtain new where
    q': "queue st' = rest @ new" and
    n: "d < max_depth P \<or> new = []" "\<forall>e\<in>set new. snd e = d + 1"
    by fastforce
  have small: "\<forall>k\<in>set_mset (mset (map (levels_left P) new)).
      \<exists>j\<in>set_mset {#levels_left P (u, d)#}. (k, j) \<in> {(a, b). a < b}"
    using n by (auto simp: levels_left_def)
  have "(mset (map (levels_left P) rest) + mset (map (levels_left P) new),
         mset (map (levels_left P) rest) + {#levels_left P (u, d)#}) \<in> mult {(a, b). a < b}"
    by (rule one_step_implies_mult) (use small in auto)
  then show ?thesis
    by (simp add: q q')
qed

termination crawl_loop
proof (relation "inv_image (mult {(a, b). a < b})
    (\<lambda>(lib, W, P, bd, st). mset (map (levels_left P) (queue st)))")
  show "wf (inv_image (mult {(a, b). a < b})
      (\<lambda>(lib :: pylib, W :: world, P, bd :: string, st). mset (map (levels_left P) (queue st))))"
    by (intro wf_inv_image wf_mult wf_less)
next
  fix lib W P base_domain st st'
  assume "queue st \<noteq> []" and "crawl_iter lib W P base_domain st = Inr st'"
  then show "((lib, W, P, base_domain, st'), (lib, W, P, base_domain, st))
      \<in> inv_image (mult {(a, b). a < b})
          (\<lambda>(lib, W, P, bd, st). mset (map (levels_left P) (queue st)))"
    by (simp del: mset_map add: crawl_iter_decreases)
qed

lemma crawl_inv_initial: "crawl_inv (initial_state P)"
  by (simp add: crawl_inv_def initial_state_def head_depth_def)

lemma crawl_iter_results:
  assumes "queue st = (u, d) # rest" and "crawl_iter lib W P bd st = Inr st'"
  shows "(u \<in> seen st \<or> d > max_depth P) \<and> results st' = results st
     \<or> u \<notin> seen st \<and> d \<le> max_depth P \<and> (\<exists>r. results st' = AList.update u r (results st))"
proof (cases "u \<in> seen st \<or> d > max_depth P")
  case True
  with assms show ?thesis by (auto simp: crawl_iter_def)
next
  case False
  with assms show ?thesis
    by (auto simp: crawl_iter_def Let_def split: if_splits sum.splits)
qed

lemma update_new_key:
  "k \<notin> fst ` set al \<Longrightarrow> map fst (AList.update k v al) = map fst al @ [k]"
  by (induction al) auto

lemma crawl_iter_inv:
  assumes inv: "crawl_inv st" and q: "queue st = (u, d) # rest"
    and it: "crawl_iter lib W P bd st = Inr st'"
  shows "crawl_inv st'"
proof -
  from inv q have so: "sorted (map snd (popped st @ (u, d) # rest))"
    and le: "\<forall>e\<in>set rest. snd e \<le> d + 1"
    and sn: "seen st = fst ` set (scraped st)" and di: "distinct (map fst (scraped st))"
    and rs: "map fst (results st) = map fst (scraped st)"
    by (auto simp: crawl_inv_def head_depth_def list_all_iff)
  from so have so': "sorted (map snd ((popped st @ [(u, d)]) @ rest))" by simp
  have low: "\<forall>e\<in>set (popped st @ [(u, d)]). snd e \<le> d"
    using so by (auto simp: sorted_append)
  have rest_ge: "\<forall>e\<in>set rest. d \<le> snd e"
    using so by (auto simp: sorted_append)
  from crawl_iter_cases [OF q it] consider
    (skip) "u \<in> seen st \<or> max_depth P < d" "queue st' = rest" "seen st' = seen st"
      "popped st' = popped st @ [(u, d)]" "scraped st' = scraped st"
    | (visit) new where "u \<notin> seen st" "d \<le> max_depth P" "seen st' = insert u (seen st)"
      "popped st' = popped st @ [(u, d)]" "scraped st' = scraped st @ [(u, d)]"
      "queue st' = rest @ new" "d < max_depth P \<or> new = []"
      "\<forall>e\<in>set new. snd e = d + 1 \<and> fst e \<notin> seen st'"
    by blast
  then show ?thesis
  proof cases
    case a: skip
    from crawl_iter_results [OF q it] a(1) have r: "results st' = results st"
      by auto
    have "list_all (\<lambda>e. snd e \<le> head_depth rest + 1) rest"
      using le rest_ge by (cases rest) (auto simp: head_depth_def list_all_iff)
    with a so' sn di rs r show ?thesis
      by (simp add: crawl_inv_def)
  next
    case a: visit
    from crawl_iter_results [OF q it] a(1) a(2) obtain r where r: "results st' = AList.update u r (results st)"
      by auto
    have "u \<notin> fst ` set (results st)"
      using a(1) sn rs by (metis list.set_map)
    then have r': "map fst (results st') = map fst (scraped st')"
      by (simp add: r update_new_key rs a(5))
    have nsorted: "sorted (map snd new)"
      using a(8) by (induction new) auto
    have s1: "sorted (map snd (rest @ new))"
      using so' nsorted le a(8) by (auto simp: sorted_append)
    have s2: "sorted (map snd ((popped st @ [(u, d)]) @ rest @ new))"
      using so' s1 low rest_ge a(8) by (fastforce simp: sorted_append)
    have hd: "list_all (\<lambda>e. snd e \<le> head_depth (rest @ new) + 1) (rest @ new)"
    proof (cases rest)
      case Nil
      then show ?thesis using a(8) by (cases new) (auto simp: head_depth_def list_all_iff)
    next
      case (Cons e es)
      then have "d \<le> snd e" using rest_ge by simp
      then show ?thesis using Cons le a(8) by (auto simp: head_depth_def list_all_iff)
    qed
    have d': "distinct (map fst (scraped st'))"
      using di a(1) sn by (auto simp: a(5))
    have sn': "seen st' = fst ` set (scraped st')"
      using sn by (auto simp: a(3) a(5))
    from s2 hd d' sn' r' show ?thesis
      by (simp add: crawl_inv_def a(4) a(6))
  qed
qed

lemma crawl_loop_inv:
  assumes "crawl_inv st"
  shows "crawl_inv (snd (crawl_loop lib W P bd st))"
  using assms
proof (induction lib W P bd st rule: crawl_loop.induct)
  case (1 lib W P bd st)
  show ?case
  proof (cases "queue st = []")
    case True
    with "1.prems" show ?thesis by simp
  next
    case False
    then obtain u d rest where q: "queue st = (u, d) # rest"
      by (cases "queue st") auto
    show ?thesis
    proof (cases "crawl_iter lib W P bd st")
      case (Inl e)
      with False "1.prems" show ?thesis by simp
    next
      case (Inr st')
      from crawl_iter_inv [OF "1.prems" q Inr] have "crawl_inv st'" .
      with "1.IH" [OF False Inr] False Inr show ?thesis by simp
    qed
  qed
qed

lemma crawl_loop_finished:
  "fst (crawl_loop lib W P bd st) = None \<Longrightarrow> queue (snd (crawl_loop lib W P bd st)) = []"
proof (induction lib W P bd st rule: crawl_loop.induct)
  case (1 lib W P bd st)
  show ?case
  proof (cases "queue st = []")
    case True
    then show ?thesis by simp
  next
    case False
    show ?thesis
    proof (cases "crawl_iter lib W P bd st")
      case (Inl e)
      with False "1.prems" show ?thesis by simp
    next
      case (Inr st')
      with "1.IH" [OF False Inr] "1.prems" False show ?thesis by simp
    qed
  qed
qed

lemma crawl_iter_empty: "queue st = [] \<Longrightarrow> crawl_iter lib W P bd st = Inr st"
  by (simp add: crawl_iter_def)

lemma crawl_steps_inv:
  assumes "crawl_inv st" and "crawl_steps n lib W P bd st = Inr st'"
  shows "crawl_inv st'"
  using assms
proof (induction n arbitrary: st)
  case 0
  then show ?case by simp
next
  case (Suc n)
  from Suc.prems(2) obtain st1 where i: "crawl_iter lib W P bd st = Inr st1"
    and s: "crawl_steps n lib W P bd st1 = Inr st'"
    by (auto split: sum.splits)
  have "crawl_inv st1"
  proof (cases "queue st")
    case Nil
    with i Suc.prems(1) show ?thesis by (simp add: crawl_iter_empty)
  next
    case (Cons e es)
    then have "queue st = (fst e, snd e) # es" by simp
    from crawl_iter_inv [OF Suc.prems(1) this i] show ?thesis .
  qed
  from Suc.IH [OF this s] show ?case .
qed

text \<open>
  Order and repetition in the crawl loop, with URLs compared as the strings that were
  queued.  In every state the loop reaches from the initial state, and in the state it
  stops in, no URL string has been scraped twice, and the depths of the entries dequeued
  so far, followed by the depths of the entries still queued, never decrease: when an
  entry of depth \<open>d + 1\<close> is dequeued, every entry of depth \<open>d\<close> has been dequeued before,
  since none is left in the queue and later entries are deeper.  The loop terminates (it
  is a total function), and the keys of \<open>results\<close> are the scraped URLs, one scrape each.
\<close>

theorem crawl_breadth_first:
  "(\<forall>n st. crawl_steps n lib W P bd (initial_state P) = Inr st \<longrightarrow>
      distinct (map fst (scraped st)) \<and> sorted (map snd (popped st @ queue st)))
   \<and> distinct (map fst (scraped (snd (crawl_loop lib W P bd (initial_state P)))))
   \<and> sorted (map snd (popped (snd (crawl_loop lib W P bd (initial_state P)))))
   \<and> map fst (results (snd (crawl_loop lib W P bd (initial_state P))))
       = map fst (scraped (snd (crawl_loop lib W P bd (initial_state P))))"
proof -
  have a: "distinct (map fst (scraped st)) \<and> sorted (map snd (popped st @ queue st))"
    if "crawl_steps n lib W P bd (initial_state P) = Inr st" for n st
    using crawl_steps_inv [OF crawl_inv_initial that] by (simp add: crawl_inv_def)
  have "crawl_inv (snd (crawl_loop lib W P bd (initial_state P)))"
    using crawl_inv_initial by (rule crawl_loop_inv)
  then have b: "distinct (map fst (scraped (snd (crawl_loop lib W P bd (initial_state P)))))"
    "sorted (map snd (popped (snd (crawl_loop lib W P bd (initial_state P)))))"
    "map fst (results (snd (crawl_loop lib W P bd (initial_state P))))
       = map fst (scraped (snd (crawl_loop lib W P bd (initial_state P))))"
    by (auto simp: crawl_inv_def sorted_append)
  from a b show ?thesis by blast
qed

theorem crawl_breadth_first_witness:
  "(case crawl_steps 3 plain_lib diamond_world diamond_params ''a.com''
            (initial_state diamond_params) of
       Inl e \<Rightarrow> False
     | Inr st \<Rightarrow> distinct (map fst (scraped st)) \<and> sorted (map snd (popped st @ queue st))
         \<and> popped st @ queue st = [(''http://a.com/'', 0), (''http://a.com/b'', 1),
              (''http://a.com/c'', 1), (''http://a.com/d'', 2), (''http://a.com/d'', 2)])
   \<and> scraped (snd (crawl_loop plain_lib diamond_world diamond_params ''a.com''
            (initial_state diamond_params)))
       = [(''http://a.com/'', 0), (''http://a.com/b'', 1), (''http://a.com/c'', 1),
          (''http://a.com/d'', 2)]
   \<and> distinct (map fst (scraped (snd (crawl_loop plain_lib diamond_world diamond_params ''a.com''
            (initial_state diamond_params)))))
   \<and> sorted (map snd (popped (snd (crawl_loop plain_lib diamond_world diamond_params ''a.com''
            (initial_state diamond_params)))))"
proof -
  have e: "(case crawl_steps 3 plain_lib diamond_world diamond_params ''a.com''
            (initial_state diamond_params) of
       Inl e \<Rightarrow> False
     | Inr st \<Rightarrow> popped st @ queue st = [(''http://a.com/'', 0), (''http://a.com/b'', 1),
              (''http://a.com/c'', 1), (''http://a.com/d'', 2), (''http://a.com/d'', 2)])"
    by code_simp
  have s: "scraped (snd (crawl_loop plain_lib diamond_world diamond_params ''a.com''
            (initial_state diamond_params)))
       = [(''http://a.com/'', 0), (''http://a.com/b'', 1), (''http://a.com/c'', 1),
          (''http://a.com/d'', 2)]"
    by code_simp
  note t = crawl_breadth_first [of plain_lib diamond_world diamond_params "''a.com''"]
  from e t s show ?thesis
    by (auto split: sum.splits)
qed




text \<open>
  Claim C3 fails on the code.  The seed \<open>http://a.com/#top\<close> is queued and scraped
  under the string given, while every link is canonicalized.  Its page links to \<open>/\<close>,
  which \<open>Map\<close> reports as \<open>http://a.com/\<close>, a string not yet in \<open>seen\<close>, so that the page
  is scraped a second time.  Both strings have the canonical form \<open>http://a.com/\<close>.
\<close>

theorem crawl_scrapes_seed_twice:
  "(case crawl plain_lib fragment_seed_world fragment_seed_params of
       Inl e \<Rightarrow> [] | Inr rs \<Rightarrow> map fst rs)
     = [''http://a.com/#top'', ''http://a.com/'']
   \<and> normalize_url plain_lib None ''http://a.com/'' ''http://a.com/#top'' = Inr (Some ''http://a.com/'')
   \<and> normalize_url plain_lib None ''http://a.com/'' ''http://a.com/'' = Inr (Some ''http://a.com/'')"
  by code_simp

text \<open>
  Claim C1 fails on the code when subdomains are followed.  The start page
  \<open>http://a.com/\<close> links to \<open>http://b.a.com/\<close> and \<open>http://x.com/\<close>.  With
  \<open>follow_subdomains = True\<close> the crawl scrapes both, the other domain \<open>x.com\<close>
  included; with \<open>follow_subdomains = False\<close> it scrapes the start page only.
\<close>

theorem crawl_follows_other_domain:
  "(case crawl plain_lib offsite_world (offsite_params True) of
       Inl e \<Rightarrow> [] | Inr rs \<Rightarrow> map fst rs)
     = [''http://a.com/'', ''http://b.a.com/'', ''http://x.com/'']
   \<and> (case crawl plain_lib offsite_world (offsite_params False) of
       Inl e \<Rightarrow> [] | Inr rs \<Rightarrow> map fst rs)
     = [''http://a.com/'']"
  by code_simp

lemma format_loop_ignores:
  "format_loop lib v (filter (\<lambda>f. f \<in> set supported_formats) fs) acc = format_loop lib v fs acc"
proof (induction fs arbitrary: acc)
  case Nil
  then show ?case by simp
next
  case (Cons f fs)
  show ?case
  proof (cases "f \<in> set supported_formats")
    case True
    then show ?thesis
      by (simp add: Cons.IH split: sum.split)
  next
    case False
    then have "f \<noteq> ''markdown''" "f \<noteq> ''json''" "f \<noteq> ''html''" "f \<noteq> ''rawHtml''"
      "f \<noteq> ''screenshot''" "f \<noteq> ''screenshot@fullPage''" "f \<noteq> ''links''"
      by (auto simp: supported_formats_def)
    with False show ?thesis
      by (simp add: Cons.IH)
  qed
qed

lemma scrape_ignores:
  "scrape lib v u (filter (\<lambda>f. f \<in> set supported_formats) fs) a = scrape lib v u fs a"
  unfolding scrape_def format_loop_ignores by (rule refl)

lemma crawl_iter_ignores:
  "crawl_iter lib W (P\<lparr>output_formats := filter (\<lambda>f. f \<in> set supported_formats) (output_formats P)\<rparr>) bd st
     = crawl_iter lib W P bd st"
  by (cases "queue st")
    (auto simp: crawl_iter_def scrape_ignores Let_def split: if_splits sum.splits)

lemma crawl_loop_ignores:
  "crawl_loop lib W (P\<lparr>output_formats := filter (\<lambda>f. f \<in> set supported_formats) (output_formats P)\<rparr>) bd st
     = crawl_loop lib W P bd st"
proof (induction lib W P bd st rule: crawl_loop.induct)
  case (1 lib W P bd st)
  show ?case
  proof (cases "queue st = []")
    case True
    then show ?thesis by simp
  next
    case False
    show ?thesis
    proof (cases "crawl_iter lib W P bd st")
      case (Inl e)
      with False show ?thesis
        by (simp add: crawl_iter_ignores)
    next
      case (Inr st')
      with False "1.IH" [OF False Inr] show ?thesis
        by (simp add: crawl_iter_ignores)
    qed
  qed
qed

lemma crawl_ignores:
  "crawl lib W (P\<lparr>output_formats := filter (\<lambda>f. f \<in> set supported_formats) (output_formats P)\<rparr>)
     = crawl lib W P"
proof -
  have i: "initial_state (P\<lparr>output_formats := filter (\<lambda>f. f \<in> set supported_formats) (output_formats P)\<rparr>)
      = initial_state P"
    by (simp add: initial_state_def)
  have s: "start_url (P\<lparr>output_formats := filter (\<lambda>f. f \<in> set supported_formats) (output_formats P)\<rparr>)
      = start_url P"
    by simp
  show ?thesis
    unfolding crawl_def i s crawl_loop_ignores by (rule refl)
qed

lemma format_loop_unknown:
  "list_all (\<lambda>f. f \<notin> set supported_formats) fs \<Longrightarrow> format_loop lib v fs acc = Inr acc"
proof -
  assume "list_all (\<lambda>f. f \<notin> set supported_formats) fs"
  then have "filter (\<lambda>f. f \<in> set supported_formats) fs = []"
    by (induction fs) auto
  with format_loop_ignores [of lib v fs acc] show ?thesis by simp
qed

text \<open>
  Claim C7, as the code has it.  An output format name outside the seven names of the
  chain is silently ignored: \<open>scrape\<close> and \<open>crawl\<close> return what they return without it,
  and a request of unknown names only succeeds with an empty \<open>formats\<close> dictionary and
  no error.
\<close>

theorem scrape_ignores_unknown_formats:
  "scrape lib v u (filter (\<lambda>f. f \<in> set supported_formats) fs) a = scrape lib v u fs a
   \<and> crawl lib W (P\<lparr>output_formats := filter (\<lambda>f. f \<in> set supported_formats) (output_formats P)\<rparr>)
       = crawl lib W P
   \<and> (list_all (\<lambda>f. f \<notin> set supported_formats) fs \<longrightarrow>
        scrape lib v u fs None =
          \<lparr>res_url = u, res_timestamp = Some (now v), res_error = None, formats = []\<rparr>)"
  by (simp add: scrape_ignores crawl_ignores) (simp add: scrape_def format_loop_unknown)

theorem scrape_ignores_unknown_formats_witness:
  "scrape plain_lib (site_visit ''http://a.com/'' []) ''http://a.com/''
       (filter (\<lambda>f. f \<in> set supported_formats) [''pdf'', ''links'']) None
     = scrape plain_lib (site_visit ''http://a.com/'' []) ''http://a.com/'' [''pdf'', ''links''] None
   \<and> scrape plain_lib (site_visit ''http://a.com/'' []) ''http://a.com/'' [''pdf''] None =
        \<lparr>res_url = ''http://a.com/'', res_timestamp = Some (now (site_visit ''http://a.com/'' [])),
          res_error = None, formats = []\<rparr>"
proof -
  have a: "list_all (\<lambda>f. f \<notin> set supported_formats) [''pdf'']"
    by (simp add: supported_formats_def)
  from scrape_ignores_unknown_formats [of plain_lib "site_visit ''http://a.com/'' []"
      "''http://a.com/''" "[''pdf'', ''links'']" None]
    scrape_ignores_unknown_formats [of plain_lib "site_visit ''http://a.com/'' []"
      "''http://a.com/''" "[''pdf'']" None] a
  show ?thesis by blast
qed

text \<open>
  Claim C7 as the specification words it fails: the invalid format name \<open>pdf\<close> is not
  rejected.  \<open>scrape\<close> returns a result without error and with empty \<open>formats\<close>, and
  \<open>crawl\<close> traverses and records such a result for the start page.
\<close>

theorem scrape_accepts_invalid_format:
  "scrape plain_lib (site_visit ''http://a.com/'' []) ''http://a.com/'' [''pdf''] None =
     \<lparr>res_url = ''http://a.com/'', res_timestamp = Some ''2024-01-01T00:00:00'',
       res_error = None, formats = []\<rparr>
   \<and> (case crawl plain_lib offsite_world ((offsite_params True)\<lparr>output_formats := [''pdf'']\<rparr>) of
        Inl e \<Rightarrow> []
      | Inr rs \<Rightarrow> map (\<lambda>(k, r). (k, res_error r, formats r)) rs)
     = [(''http://a.com/'', None, [])]"
  by code_simp

lemma format_loop_links:
  assumes "format_loop lib v fs acc = Inr r"
  shows "map_of r ''links'' =
     (if ''links'' \<in> set fs
      then Some (FLinks (result_links (Map lib None False None (browser v))))
      else map_of acc ''links'')"
  using assms
proof (induction fs arbitrary: acc)
  case Nil
  then show ?case by simp
next
  case (Cons f fs)
  from Cons.prems obtain acc' where
    n: "format_loop lib v fs acc' = Inr r" and
    a: "map_of acc' ''links'' =
       (if f = ''links'' then Some (FLinks (result_links (Map lib None False None (browser v))))
        else map_of acc ''links'')"
    by (auto simp: update_conv' take_screenshot_call_def split: if_splits sum.splits)
  from Cons.IH [OF n] a show ?case by auto
qed

lemma scrape_links:
  assumes "res_error (scrape lib v u fs a) = None" and "''links'' \<in> set fs"
  shows "map_of (formats (scrape lib v u fs a)) ''links''
     = Some (FLinks (result_links (Map lib None False None (browser v))))"
proof -
  from assms(1) obtain r where "format_loop lib v fs [] = Inr r" "formats (scrape lib v u fs a) = r"
    by (auto simp: scrape_def scrape_failed_def split: option.splits sum.splits if_splits)
  with format_loop_links [of lib v fs "[]" r] assms(2) show ?thesis by simp
qed

text \<open>
  Claim C10.  The links \<open>Map\<close> returns are sorted in the order of strings (by code
  point, a proper prefix first) and free of duplicates; each is the normalized form of an
  element of the page; and they depend on the set of the elements' addresses only, not
  on the order in which the elements stand in the document.  The \<open>links\<close> format of a
  successful \<open>scrape\<close> is this list, for \<open>Map\<close> called without arguments.
\<close>

theorem links_format_sorted_distinct:
  "sorted (result_links (Map lib base_url ia fp b))
   \<and> distinct (result_links (Map lib base_url ia fp b))
   \<and> (\<forall>l\<in>set (result_links (Map lib base_url ia fp b)).
        \<exists>page h. b = Inr page \<and> h \<in> set (page_hrefs ia page)
          \<and> normalize_url lib base_url (page_url page) h = Inr (Some l))
   \<and> (\<forall>page page'. page_url page = page_url page' \<longrightarrow>
        set (page_hrefs ia page) = set (page_hrefs ia page') \<longrightarrow>
        result_links (Map lib base_url ia fp (Inr page))
          = result_links (Map lib base_url ia fp (Inr page')))
   \<and> (\<forall>v u fs a. res_error (scrape lib v u fs a) = None \<longrightarrow> ''links'' \<in> set fs \<longrightarrow>
        map_of (formats (scrape lib v u fs a)) ''links''
          = Some (FLinks (result_links (Map lib None False None (browser v)))))"
proof (intro conjI allI impI ballI)
  show "sorted (result_links (Map lib base_url ia fp b))"
    by (rule Map_links_sorted)
  show "distinct (result_links (Map lib base_url ia fp b))"
    by (rule Map_links_distinct)
  show "\<exists>page h. b = Inr page \<and> h \<in> set (page_hrefs ia page)
          \<and> normalize_url lib base_url (page_url page) h = Inr (Some l)"
    if "l \<in> set (result_links (Map lib base_url ia fp b))" for l
    using that by (rule Map_links_normalized)
  show "result_links (Map lib base_url ia fp (Inr page))
          = result_links (Map lib base_url ia fp (Inr page'))"
    if "page_url page = page_url page'" "set (page_hrefs ia page) = set (page_hrefs ia page')"
    for page page'
    using that by (rule Map_links_order)
  show "map_of (formats (scrape lib v u fs a)) ''links''
          = Some (FLinks (result_links (Map lib None False None (browser v))))"
    if "res_error (scrape lib v u fs a) = None" "''links'' \<in> set fs" for v u fs a
    using that by (rule scrape_links)
qed

theorem links_format_sorted_distinct_witness:
  "result_links (Map plain_lib None False None (Inr unordered_page))
     = [''http://a.com/a'', ''http://a.com/b'']
   \<and> sorted (result_links (Map plain_lib None False None (Inr unordered_page)))
   \<and> distinct (result_links (Map plain_lib None False None (Inr unordered_page)))
   \<and> result_links (Map plain_lib None False None (Inr unordered_page))
       = result_links (Map plain_lib None False None
           (Inr (unordered_page\<lparr>anchor_hrefs := rev (anchor_hrefs unordered_page)\<rparr>)))
   \<and> map_of (formats (scrape plain_lib (site_visit ''http://a.com/'' [''/b'', ''/a'', ''/b''])
         ''http://a.com/'' [''links''] None)) ''links''
       = Some (FLinks [''http://a.com/a'', ''http://a.com/b''])"
proof -
  note t = links_format_sorted_distinct [of plain_lib None False None "Inr unordered_page"]
  have e: "result_links (Map plain_lib None False None (Inr unordered_page))
     = [''http://a.com/a'', ''http://a.com/b'']"
    by code_simp
  have p: "page_url unordered_page
      = page_url (unordered_page\<lparr>anchor_hrefs := rev (anchor_hrefs unordered_page)\<rparr>)"
    "set (page_hrefs False unordered_page)
      = set (page_hrefs False (unordered_page\<lparr>anchor_hrefs := rev (anchor_hrefs unordered_page)\<rparr>))"
    by (simp_all add: page_hrefs_def)
  note t1 = t [THEN conjunct1]
  note t2 = t [THEN conjunct2, THEN conjunct1]
  note t4 = t [THEN conjunct2, THEN conjunct2, THEN conjunct2, THEN conjunct1, rule_format]
  note t5 = t [THEN conjunct2, THEN conjunct2, THEN conjunct2, THEN conjunct2, rule_format]
  have o: "result_links (Map plain_lib None False None (Inr unordered_page))
       = result_links (Map plain_lib None False None
           (Inr (unordered_page\<lparr>anchor_hrefs := rev (anchor_hrefs unordered_page)\<rparr>)))"
    using p by (rule t4)
  have s1: "res_error (scrape plain_lib (site_visit ''http://a.com/'' [''/b'', ''/a'', ''/b''])
         ''http://a.com/'' [''links''] None) = None"
    by code_simp
  have s2: "result_links (Map plain_lib None False None
       (browser (site_visit ''http://a.com/'' [''/b'', ''/a'', ''/b''])))
     = [''http://a.com/a'', ''http://a.com/b'']"
    by code_simp
  have l: "''links'' \<in> set [''links'']" by simp
  have s: "map_of (formats (scrape plain_lib (site_visit ''http://a.com/'' [''/b'', ''/a'', ''/b''])
         ''http://a.com/'' [''links''] None)) ''links''
       = Some (FLinks [''http://a.com/a'', ''http://a.com/b''])"
    using t5 [OF s1 l] unfolding s2 .
  show ?thesis
    by (rule conjI [OF e conjI [OF t1 conjI [OF t2 conjI [OF o s]]]])
qed

end
